theory Spec2Isabelle
  imports Main "HOL-Library.Sublist"
begin

section \<open>JavaScript strings and arrays\<close>

text \<open>
  A string of the program is a \<^typ>\<open>string\<close>: one \<^typ>\<open>char\<close> stands for one code unit, so
  the model covers the code units below 256. The functions of this section are the
  built-in string and array methods the program calls, each named after the method.
\<close>

definition isWhiteSpace :: "char \<Rightarrow> bool" where
  \<comment> \<open>the white space and line terminators that \<open>String.prototype.trim\<close> strips
      (TAB, LF, VT, FF, CR, SP, NBSP)\<close>
  "isWhiteSpace c \<longleftrightarrow>
     c \<in> set [CHR 0x09, CHR 0x0A, CHR 0x0B, CHR 0x0C, CHR 0x0D, CHR 0x20, CHR 0xA0]"

definition trim :: "string \<Rightarrow> string" where
  "trim s = rev (dropWhile isWhiteSpace (rev (dropWhile isWhiteSpace s)))"

definition toLowerCaseChar :: "char \<Rightarrow> char" where
  "toLowerCaseChar c =
     (let n = (of_char c :: nat)
      in if (65 \<le> n \<and> n \<le> 90) \<or> (192 \<le> n \<and> n \<le> 222 \<and> n \<noteq> 215)
         then char_of (n + 32) else c)"

definition toLowerCase :: "string \<Rightarrow> string" where
  "toLowerCase s = map toLowerCaseChar s"

fun split_char :: "char \<Rightarrow> string \<Rightarrow> string list" where
  \<comment> \<open>\<open>s.split(c)\<close> for a separator of one character: never an empty array\<close>
  "split_char c [] = [[]]"
| "split_char c (x # xs) =
     (if x = c then [] # split_char c xs
      else (case split_char c xs of [] \<Rightarrow> [[x]] | y # ys \<Rightarrow> (x # y) # ys))"

definition pop :: "'a list \<Rightarrow> 'a option" where
  \<comment> \<open>the value of \<open>a.pop()\<close>: the last element, \<open>undefined\<close> on an empty array\<close>
  "pop xs = (if xs = [] then None else Some (last xs))"

fun replace_first :: "string \<Rightarrow> string \<Rightarrow> string \<Rightarrow> string" where
  \<comment> \<open>\<open>s.replace(pat, rep)\<close> for a string pattern: the first occurrence only\<close>
  "replace_first pat rep [] = (if pat = [] then rep else [])"
| "replace_first pat rep (x # xs) =
     (if prefix pat (x # xs) then rep @ drop (length pat) (x # xs)
      else x # replace_first pat rep xs)"

fun join :: "string \<Rightarrow> string list \<Rightarrow> string" where
  \<comment> \<open>\<open>a.join(sep)\<close>\<close>
  "join sep [] = []"
| "join sep [x] = x"
| "join sep (x # y # ys) = x @ sep @ join sep (y # ys)"

definition repeat_str :: "string \<Rightarrow> nat \<Rightarrow> string" where
  \<comment> \<open>\<open>s.repeat(n)\<close>\<close>
  "repeat_str s n = concat (replicate n s)"

function split_newlines :: "string \<Rightarrow> string \<Rightarrow> string list" where
  \<comment> \<open>\<open>s.split(/\n\n+/)\<close>: \<open>cur\<close> is the piece read since the last separator; a
      separator is a maximal run of two or more line feeds\<close>
  "split_newlines cur [] = [cur]"
| "split_newlines cur (x # xs) =
     (if x = CHR 0x0A \<and> xs \<noteq> [] \<and> hd xs = CHR 0x0A
      then cur # split_newlines [] (dropWhile (\<lambda>c. c = CHR 0x0A) xs)
      else split_newlines (cur @ [x]) xs)"
  by pat_completeness auto
termination
  by (relation "measure (\<lambda>(cur, s). length s)")
     (auto simp: le_imp_less_Suc length_dropWhile_le)

definition js_or :: "string option \<Rightarrow> string \<Rightarrow> string" where
  \<comment> \<open>\<open>v || d\<close> for a string that may be \<open>undefined\<close>: the empty string is falsy too\<close>
  "js_or v d = (case v of None \<Rightarrow> d | Some s \<Rightarrow> if s = [] then d else s)"

section \<open>The translation client (translator.ts)\<close>

datatype targetLang = Zh | En | Auto

record TranslationConfig =
  apiKey :: string
  baseUrl :: "string option"
  model :: "string option"
  targetLang :: targetLang

definition SYSTEM_PROMPT :: string where
  "SYSTEM_PROMPT =
     ''You are a professional translator. \<newline>'' @
     ''Translate the following text content directly, keeping the original meaning and tone.\<newline>'' @
     ''Do not output any explanation or extra text.\<newline>'' @
     ''If the text contains markdown formatting, preserve it.\<newline>'' @
     ''If the text contains XML tags (like in DOCX), preserve the tags and only translate the text content within valid text nodes.''"

text \<open>
  The remote service is outside the program. A request carries what the client sends;
  a response is the stream the service answers with: the \<open>delta.content\<close> of each
  chunk (\<open>None\<close> where the chunk has none) and, when the call or the iteration throws,
  the \<open>message\<close> of the error thrown after those chunks (the empty string when the
  error has no message). The service is a function of its own state \<open>'w\<close>, so the same
  text may succeed in one call and fail in the next. The state \<open>'w io\<close> of a run holds
  the state of the service and the requests sent to it so far, oldest first; a request is
  sent by calling the service and in no other way.
\<close>

record request =
  req_apiKey :: string
  req_baseURL :: string
  req_model :: string
  req_system :: string
  req_user :: string

record response =
  deltas :: "string option list"
  failure :: "string option"

type_synonym 'w remote = "'w \<Rightarrow> request \<Rightarrow> response \<times> 'w"

record 'w io =
  world :: 'w
  sent :: "request list"

definition languagePrompt :: "TranslationConfig \<Rightarrow> string" where
  "languagePrompt config =
     (if targetLang config = Auto
      then ''Detect the source language. If it is Chinese, translate to English. If it is English, translate to Chinese.''
      else ''Translate to '' @
           (if targetLang config = Zh then ''Chinese (Simplified)'' else ''English'') @ ''.'')"

definition make_request :: "TranslationConfig \<Rightarrow> string \<Rightarrow> request" where
  "make_request config text =
     \<lparr> req_apiKey = apiKey config,
       req_baseURL = js_or (baseUrl config) ''https://api.openai.com/v1'',
       req_model = js_or (model config) ''gpt-4o-mini'',
       req_system = SYSTEM_PROMPT @ ''\<newline>'' @ languagePrompt config,
       req_user = text \<rparr>"

fun read_stream :: "string option list \<Rightarrow> string \<Rightarrow> string list \<Rightarrow> string \<times> string list" where
  \<comment> \<open>the \<open>for await\<close> loop: the accumulated result and the calls of \<open>onProgress\<close>\<close>
  "read_stream [] result calls = (result, calls)"
| "read_stream (chunk # rest) result calls =
     (let content = js_or chunk []
      in if content \<noteq> [] then read_stream rest (result @ content) (calls @ [result @ content])
         else read_stream rest result calls)"

definition translateText ::
  "'w remote \<Rightarrow> string \<Rightarrow> TranslationConfig \<Rightarrow> 'w io \<Rightarrow> (string + string) \<times> string list \<times> 'w io"
where
  \<comment> \<open>\<open>Inr\<close> the returned text, \<open>Inl\<close> the message of the error thrown; then the calls
      of \<open>onProgress\<close>; then the state after the call\<close>
  "translateText remote text config s =
     (if text = [] \<or> trim text = [] then (Inr text, [], s)
      else
        let req = make_request config text;
            (resp, w') = remote (world s) req;
            s' = s\<lparr>world := w', sent := sent s @ [req]\<rparr>;
            (result, calls) = read_stream (deltas resp) [] []
        in case failure resp of
             None \<Rightarrow> (Inr result, calls, s')
           | Some msg \<Rightarrow> (Inl (if msg = [] then ''Translation failed'' else msg), calls, s'))"

section \<open>The batch translator (translator.ts)\<close>

text \<open>
  The callbacks \<open>onLog\<close> and \<open>onBatchProgress\<close> and \<open>console.error\<close> only observe: the
  model records each call as an event, in the order the calls are made, and takes it
  that a callback returns normally (the callbacks passed in this program update the
  state of the user interface). A log message is recorded by its template and the values
  put into it; the measured durations are wall-clock time and are left out.
\<close>

datatype level = Info | Success | Error | Warning

datatype message =
    Translating nat nat string    \<comment> \<open>part i of n is being translated, with its preview\<close>
  | Translated nat nat            \<comment> \<open>part i of n is translated\<close>
  | TranslateFailed nat nat string  \<comment> \<open>part i of n failed, with the error's message\<close>
  | DocxStart | DocxFound nat | DocxNothing | DocxReassembling | DocxDone
  | MarkdownStart | MarkdownFound nat | MarkdownDone
  | PlainStart
  | PdfStart nat | PdfGenerating

datatype event =
    OnLog message level
  | OnBatchProgress nat nat
  | ConsoleError nat string

definition previewText :: "string \<Rightarrow> string" where
  "previewText t =
     map (\<lambda>c. if c = CHR 0x0A then CHR '' '' else c) (take 30 t) @
     (if length t > 30 then ''...'' else [])"

fun translateBatch_from ::
  "'w remote \<Rightarrow> TranslationConfig \<Rightarrow> nat \<Rightarrow> nat \<Rightarrow> string list \<Rightarrow> 'w io
     \<Rightarrow> string list \<times> event list \<times> 'w io"
where
  \<comment> \<open>the \<open>for\<close> loop from index \<open>i\<close> on: \<open>len\<close> is \<open>texts.length\<close>, the list holds
      \<open>texts[i]\<close>, \<open>texts[i+1]\<close>, ...; the results pushed, the events, the final state\<close>
  "translateBatch_from remote config len i [] s = ([], [], s)"
| "translateBatch_from remote config len i (t # ts) s =
     (let (outcome, _, s1) = translateText remote t config s;
          (pushed, evs) =
            (case outcome of
               Inr translated \<Rightarrow>
                 (translated,
                  [OnLog (Translating (i + 1) len (previewText t)) Info,
                   OnLog (Translated (i + 1) len) Success,
                   OnBatchProgress (i + 1) len])
             | Inl msg \<Rightarrow>
                 (t,
                  [OnLog (Translating (i + 1) len (previewText t)) Info,
                   ConsoleError i msg,
                   OnLog (TranslateFailed (i + 1) len msg) Error]));
          (results, events, s2) = translateBatch_from remote config len (i + 1) ts s1
      in (pushed # results, evs @ events, s2))"

definition translateBatch ::
  "'w remote \<Rightarrow> string list \<Rightarrow> TranslationConfig \<Rightarrow> 'w io \<Rightarrow> string list \<times> event list \<times> 'w io"
where
  "translateBatch remote texts config s =
     translateBatch_from remote config (length texts) 0 texts s"

section \<open>The DOCX reassembler (translateDocx)\<close>

text \<open>
  The document object model is the browser's; this section models the part of it the
  program uses. A parsed document is a tree of elements and character data (attributes,
  comments and processing instructions play no part in the traversal or in
  \<open>textContent\<close> and are left out). An element object is identified by its position in
  the parsed tree: the list of child indexes from the root element.

  The program changes the document in two ways only. It sets the property
  \<open>_pendingTranslation\<close> on element objects (\<open>pending\<close>), and it assigns \<open>textContent\<close>,
  which replaces all children of the element by one new text node (\<open>written\<close>: the string
  last assigned to each element). An element whose parent was overwritten is detached
  from the document but keeps its own children, so the children of any element object are
  those of the parsed tree unless the element itself was written.

  \<open>getElementsByTagName\<close> returns a live collection: \<open>textNodes.length\<close> and
  \<open>textNodes[i]\<close> are read from the document as it is at the time of the read.
\<close>

datatype xml = Element string "xml list" | Text string

type_synonym node = "nat list"

record document =
  root :: xml
  written :: "node \<rightharpoonup> string"
  pending :: "node set"

fun node_at :: "xml \<Rightarrow> node \<Rightarrow> xml option" where
  "node_at t [] = Some t"
| "node_at (Text s) (i # p) = None"
| "node_at (Element name children) (i # p) =
     (if i < length children then node_at (children ! i) p else None)"

fun elements :: "(node \<rightharpoonup> string) \<Rightarrow> string \<Rightarrow> node \<Rightarrow> xml \<Rightarrow> node list"
  and elements_in :: "(node \<rightharpoonup> string) \<Rightarrow> string \<Rightarrow> node \<Rightarrow> nat \<Rightarrow> xml list \<Rightarrow> node list"
where
  \<comment> \<open>the elements named \<open>tag\<close> in the subtree at \<open>p\<close>, in document order; \<open>elements_in\<close>
      walks the children from index \<open>i\<close> on\<close>
  "elements w tag p (Text s) = []"
| "elements w tag p (Element name children) =
     (if name = tag then [p] else []) @
     (case w p of Some s \<Rightarrow> [] | None \<Rightarrow> elements_in w tag p 0 children)"
| "elements_in w tag p i [] = []"
| "elements_in w tag p i (c # cs) = elements w tag (p @ [i]) c @ elements_in w tag p (Suc i) cs"

fun text_under :: "(node \<rightharpoonup> string) \<Rightarrow> node \<Rightarrow> xml \<Rightarrow> string"
  and text_in :: "(node \<rightharpoonup> string) \<Rightarrow> node \<Rightarrow> nat \<Rightarrow> xml list \<Rightarrow> string"
where
  \<comment> \<open>the concatenated character data below a node\<close>
  "text_under w p (Text s) = s"
| "text_under w p (Element name children) =
     (case w p of Some s \<Rightarrow> s | None \<Rightarrow> text_in w p 0 children)"
| "text_in w p i [] = []"
| "text_in w p i (c # cs) = text_under w (p @ [i]) c @ text_in w p (Suc i) cs"

fun current :: "(node \<rightharpoonup> string) \<Rightarrow> node \<Rightarrow> xml \<Rightarrow> xml"
  and current_in :: "(node \<rightharpoonup> string) \<Rightarrow> node \<Rightarrow> nat \<Rightarrow> xml list \<Rightarrow> xml list"
where
  \<comment> \<open>the tree as it stands after the assignments, which is what is serialized\<close>
  "current w p (Text s) = Text s"
| "current w p (Element name children) =
     Element name
       (case w p of
          Some s \<Rightarrow> (if s = [] then [] else [Text s])
        | None \<Rightarrow> current_in w p 0 children)"
| "current_in w p i [] = []"
| "current_in w p i (c # cs) = current w (p @ [i]) c # current_in w p (Suc i) cs"

definition document_getElementsByTagName :: "document \<Rightarrow> string \<Rightarrow> node list" where
  \<comment> \<open>\<open>xmlDoc.getElementsByTagName(tag)\<close>: every element of the document, the root included\<close>
  "document_getElementsByTagName d tag = elements (written d) tag [] (root d)"

definition getElementsByTagName :: "document \<Rightarrow> node \<Rightarrow> string \<Rightarrow> node list" where
  \<comment> \<open>\<open>p.getElementsByTagName(tag)\<close>: the descendants of the element \<open>p\<close>, not \<open>p\<close> itself\<close>
  "getElementsByTagName d p tag =
     (case node_at (root d) p of
        Some (Element name children) \<Rightarrow>
          (case written d p of Some s \<Rightarrow> [] | None \<Rightarrow> elements_in (written d) tag p 0 children)
      | _ \<Rightarrow> [])"

definition textContent :: "document \<Rightarrow> node \<Rightarrow> string" where
  "textContent d p =
     (case node_at (root d) p of Some t \<Rightarrow> text_under (written d) p t | None \<Rightarrow> [])"

definition setTextContent :: "document \<Rightarrow> node \<Rightarrow> string \<Rightarrow> document" where
  "setTextContent d p s = d\<lparr>written := (written d)(p \<mapsto> s)\<rparr>"

definition new_document :: "xml \<Rightarrow> document" where
  \<comment> \<open>the document as parsed: nothing written, nothing marked\<close>
  "new_document t = \<lparr> root = t, written = Map.empty, pending = {} \<rparr>"

definition serialized :: "document \<Rightarrow> xml" where
  "serialized d = current (written d) [] (root d)"

lemma elements_in_shrink:
  assumes "\<And>c p. c \<in> set cs \<Longrightarrow> length (elements w' tag p c) \<le> length (elements w tag p c)"
  shows "length (elements_in w' tag p i cs) \<le> length (elements_in w tag p i cs)"
  using assms
proof (induction cs arbitrary: i)
  case Nil
  then show ?case by simp
next
  case (Cons c cs)
  have "length (elements w' tag (p @ [i]) c) \<le> length (elements w tag (p @ [i]) c)"
    using Cons.prems by simp
  moreover have "length (elements_in w' tag p (Suc i) cs) \<le> length (elements_in w tag p (Suc i) cs)"
    using Cons.IH Cons.prems by simp
  ultimately show ?case by simp
qed

lemma elements_shrink:
  assumes "\<And>q. w q \<noteq> None \<Longrightarrow> w' q \<noteq> None"
  shows "length (elements w' tag p t) \<le> length (elements w tag p t)"
proof (induction t arbitrary: p)
  case (Text s)
  then show ?case by simp
next
  case (Element name children)
  show ?case
  proof (cases "w' p")
    case None
    then have "w p = None" using assms by blast
    then show ?thesis using None Element.IH elements_in_shrink [of children w' tag w p 0]
      by simp
  next
    case (Some s)
    then show ?thesis by simp
  qed
qed

lemma getElementsByTagName_setTextContent_shrink:
  "length (getElementsByTagName (setTextContent d q s) p tag) \<le> length (getElementsByTagName d p tag)"
proof -
  have "\<And>c p'. length (elements ((written d)(q \<mapsto> s)) tag p' c) \<le> length (elements (written d) tag p' c)"
    by (rule elements_shrink) simp
  then have "\<And>cs i. length (elements_in ((written d)(q \<mapsto> s)) tag p i cs)
                 \<le> length (elements_in (written d) tag p i cs)"
    by (rule elements_in_shrink)
  then show ?thesis
    by (simp add: getElementsByTagName_def setTextContent_def split: option.splits xml.splits)
qed

lemma getElementsByTagName_pending [simp]:
  "getElementsByTagName (d\<lparr>pending := X\<rparr>) p tag = getElementsByTagName d p tag"
  by (simp add: getElementsByTagName_def split: option.splits xml.splits)

function extractNodes :: "document \<Rightarrow> node \<Rightarrow> nat \<Rightarrow> string list \<Rightarrow> document \<times> string list" where
  \<comment> \<open>the inner loop of the first pass, from index \<open>i\<close> on, over the live collection of
      paragraph \<open>p\<close>; \<open>textsToTranslate\<close> holds the texts pushed so far\<close>
  "extractNodes d p i textsToTranslate =
     (let textNodes = getElementsByTagName d p ''w:t''
      in if i < length textNodes then
           let node = textNodes ! i;
               text = textContent d node
           in if length (trim text) > 0
              then extractNodes (d\<lparr>pending := insert node (pending d)\<rparr>) p (i + 1)
                     (textsToTranslate @ [text])
              else extractNodes d p (i + 1) textsToTranslate
         else (d, textsToTranslate))"
  by pat_completeness auto
termination
  by (relation "measure (\<lambda>(d, p, i, ts). length (getElementsByTagName d p ''w:t'') - i)")
     auto

declare extractNodes.simps [simp del]

fun extractParagraphs :: "document \<Rightarrow> node list \<Rightarrow> string list \<Rightarrow> document \<times> string list" where
  \<comment> \<open>\<open>paragraphs.forEach\<close> of the first pass; the array of paragraphs is not live\<close>
  "extractParagraphs d [] textsToTranslate = (d, textsToTranslate)"
| "extractParagraphs d (p # ps) textsToTranslate =
     (let (d', textsToTranslate') = extractNodes d p 0 textsToTranslate
      in extractParagraphs d' ps textsToTranslate')"

definition truthy_at :: "string list \<Rightarrow> nat \<Rightarrow> bool" where
  \<comment> \<open>\<open>if (a[k])\<close>: an index out of range reads \<open>undefined\<close>, and the empty string is falsy\<close>
  "truthy_at a k \<longleftrightarrow> k < length a \<and> a ! k \<noteq> []"

function writeNodes :: "document \<Rightarrow> node \<Rightarrow> string list \<Rightarrow> nat \<Rightarrow> nat \<Rightarrow> document \<times> nat" where
  \<comment> \<open>the inner loop of the write-back pass, from index \<open>i\<close> on; returns \<open>tIndex\<close> too\<close>
  "writeNodes d p translatedTexts i tIndex =
     (let textNodes = getElementsByTagName d p ''w:t''
      in if i < length textNodes then
           let node = textNodes ! i
           in if node \<in> pending d
              then writeNodes
                     (if truthy_at translatedTexts tIndex
                      then setTextContent d node (translatedTexts ! tIndex) else d)
                     p translatedTexts (i + 1) (tIndex + 1)
              else writeNodes d p translatedTexts (i + 1) tIndex
         else (d, tIndex))"
  by pat_completeness auto
termination
proof (relation "measure (\<lambda>(d, p, tr, i, k). length (getElementsByTagName d p ''w:t'') - i)",
    goal_cases)
  case 1
  show ?case by simp
next
  case (2 d p translatedTexts i tIndex textNodes node)
  have "length (getElementsByTagName (setTextContent d node (translatedTexts ! tIndex)) p ''w:t'')
          \<le> length (getElementsByTagName d p ''w:t'')"
    by (rule getElementsByTagName_setTextContent_shrink)
  with 2 show ?case by auto
next
  case 3
  then show ?case by auto
qed

declare writeNodes.simps [simp del]

fun writeParagraphs :: "document \<Rightarrow> node list \<Rightarrow> string list \<Rightarrow> nat \<Rightarrow> document \<times> nat" where
  \<comment> \<open>\<open>paragraphs.forEach\<close> of the write-back pass\<close>
  "writeParagraphs d [] translatedTexts tIndex = (d, tIndex)"
| "writeParagraphs d (p # ps) translatedTexts tIndex =
     (let (d', tIndex') = writeNodes d p translatedTexts 0 tIndex
      in writeParagraphs d' ps translatedTexts tIndex')"

definition translateDocx ::
  "(string \<Rightarrow> xml) \<Rightarrow> (xml \<Rightarrow> string) \<Rightarrow> 'w remote \<Rightarrow> (string \<rightharpoonup> string)
     \<Rightarrow> TranslationConfig \<Rightarrow> 'w io
     \<Rightarrow> (string + (string \<rightharpoonup> string)) \<times> event list \<times> 'w io"
where
  \<comment> \<open>the archive is a map from part names to their contents, and the blob returned is
      the archive; the parser and the serializer are the browser's and are parameters;
      \<open>Inl\<close> is the error thrown; the progress events are those of \<open>translateBatch\<close>
      (the percentage handed on to \<open>onProgress\<close> is floating-point arithmetic)\<close>
  "translateDocx parseFromString serializeToString remote archive config s =
     (case archive ''word/document.xml'' of
        None \<Rightarrow> (Inl ''word/document.xml not found'', [OnLog DocxStart Info], s)
      | Some docXml \<Rightarrow>
          if docXml = [] then (Inl ''word/document.xml not found'', [OnLog DocxStart Info], s)
          else
            let xmlDoc = new_document (parseFromString docXml);
                paragraphs = document_getElementsByTagName xmlDoc ''w:p'';
                (xmlDoc1, rawTexts) = extractParagraphs xmlDoc paragraphs [];
                count = length rawTexts
            in if count = 0
               then (Inr archive,
                     [OnLog DocxStart Info, OnLog (DocxFound count) Info, OnLog DocxNothing Warning],
                     s)
               else
                 let (translatedTexts, events, s') = translateBatch remote rawTexts config s;
                     (xmlDoc2, tIndex) = writeParagraphs xmlDoc1 paragraphs translatedTexts 0;
                     newDocXml = serializeToString (serialized xmlDoc2)
                 in (Inr (archive(''word/document.xml'' \<mapsto> newDocXml)),
                     [OnLog DocxStart Info, OnLog (DocxFound count) Info] @ events @
                       [OnLog DocxReassembling Info, OnLog DocxDone Success],
                     s'))"

section \<open>The Markdown, plain-text and PDF reassemblers\<close>

record blob =
  blob_content :: string
  blob_type :: string

definition translateMarkdown ::
  "'w remote \<Rightarrow> string \<Rightarrow> TranslationConfig \<Rightarrow> 'w io \<Rightarrow> blob \<times> event list \<times> 'w io"
where
  "translateMarkdown remote content config s =
     (let paragraphs = split_newlines [] content;
          (translatedParagraphs, events, s') = translateBatch remote paragraphs config s;
          finalContent = join ''\<newline>\<newline>'' translatedParagraphs
      in (\<lparr> blob_content = finalContent, blob_type = ''text/markdown'' \<rparr>,
          [OnLog MarkdownStart Info, OnLog (MarkdownFound (length paragraphs)) Info] @ events @
            [OnLog MarkdownDone Success],
          s'))"

definition translatePlainFile ::
  "'w remote \<Rightarrow> string \<Rightarrow> TranslationConfig \<Rightarrow> 'w io \<Rightarrow> blob \<times> event list \<times> 'w io"
where
  "translatePlainFile remote content config s =
     (let (translated, events, s') = translateBatch remote [content] config s
      in (\<lparr> blob_content = (case translated of [] \<Rightarrow> ''undefined'' | t # _ \<Rightarrow> t),
             blob_type = ''text/plain'' \<rparr>,
          [OnLog PlainStart Info] @ events,
          s'))"

definition pageBreak :: string where
  "pageBreak = ''\<newline>\<newline>'' @ repeat_str ''-'' 20 @ '' Page Break '' @ repeat_str ''-'' 20 @
               ''\<newline>\<newline>''"

definition translatePdfPages ::
  "'w remote \<Rightarrow> string list \<Rightarrow> TranslationConfig \<Rightarrow> 'w io \<Rightarrow> blob \<times> event list \<times> 'w io"
where
  "translatePdfPages remote pages config s =
     (let (translatedPages, events, s') = translateBatch remote pages config s;
          finalContent = join pageBreak translatedPages
      in (\<lparr> blob_content = finalContent, blob_type = ''text/plain'' \<rparr>,
          [OnLog (PdfStart (length pages)) Info] @ events @ [OnLog PdfGenerating Info],
          s'))"

section \<open>The document parser (parseDocument)\<close>

text \<open>
  A file is what the browser hands over: its name, its MIME type, its bytes and its
  content decoded as text. Unpacking an archive (\<open>loadAsync\<close>) and reading a PDF
  (\<open>getDocument\<close>) are done by libraries and are parameters: each returns its result or
  the message of the error it throws. An archive is a map from part names to contents; a
  PDF is the list of its pages, each the list of the strings of its text items.
\<close>

datatype fileType = Docx | Pdf | Md | Txt

record 'b File =
  file_name :: string
  file_type :: string
  file_arrayBuffer :: 'b
  file_text :: string

record 'b ParsedDocument =
  pd_type :: fileType
  pd_content :: string
  pd_originalData :: "'b + string"
  pd_structure :: "(string \<rightharpoonup> string) option"
  pd_pages :: "string list option"

definition getFileType :: "string \<Rightarrow> fileType" where
  "getFileType filename =
     (let ext = map_option toLowerCase (pop (split_char CHR ''.'' filename))
      in if ext = Some ''docx'' then Docx
         else if ext = Some ''pdf'' then Pdf
         else if ext = Some ''md'' \<or> ext = Some ''markdown'' then Md
         else Txt)"

definition parseDocx ::
  "('b \<Rightarrow> string + (string \<rightharpoonup> string)) \<Rightarrow> 'b \<Rightarrow> string + 'b ParsedDocument"
where
  "parseDocx loadAsync buffer =
     (case loadAsync buffer of
        Inl err \<Rightarrow> Inl err
      | Inr archive \<Rightarrow>
          (case archive ''word/document.xml'' of
             None \<Rightarrow> Inl ''Invalid DOCX file''
           | Some documentXml \<Rightarrow>
               if documentXml = [] then Inl ''Invalid DOCX file''
               else Inr \<lparr> pd_type = Docx, pd_content = ''DOCX content loaded'',
                          pd_originalData = Inl buffer, pd_structure = Some archive,
                          pd_pages = None \<rparr>))"

fun parsePdf_pages :: "string list list \<Rightarrow> string \<Rightarrow> string list \<Rightarrow> string \<times> string list" where
  \<comment> \<open>the loop over the pages: \<open>fullText\<close> and \<open>pages\<close> so far\<close>
  "parsePdf_pages [] fullText pages = (fullText, pages)"
| "parsePdf_pages (items # rest) fullText pages =
     (let pageText = join '' '' items
      in parsePdf_pages rest (fullText @ pageText @ ''\<newline>\<newline>'') (pages @ [pageText]))"

definition parsePdf ::
  "('b \<Rightarrow> string + string list list) \<Rightarrow> 'b \<Rightarrow> string + 'b ParsedDocument"
where
  "parsePdf getDocument buffer =
     (case getDocument buffer of
        Inl err \<Rightarrow> Inl err
      | Inr pdf \<Rightarrow>
          let (fullText, pages) = parsePdf_pages pdf [] []
          in Inr \<lparr> pd_type = Pdf, pd_content = fullText, pd_originalData = Inl buffer,
                     pd_structure = None, pd_pages = Some pages \<rparr>)"

definition parseDocument ::
  "('b \<Rightarrow> string + (string \<rightharpoonup> string)) \<Rightarrow> ('b \<Rightarrow> string + string list list)
     \<Rightarrow> 'b File \<Rightarrow> string + 'b ParsedDocument"
where
  "parseDocument loadAsync getDocument file =
     (let arrayBuffer = file_arrayBuffer file;
          fileType = getFileType (file_name file)
      in if fileType = Docx then parseDocx loadAsync arrayBuffer
         else if fileType = Pdf then parsePdf getDocument arrayBuffer
         else let text = file_text file
              in Inr \<lparr> pd_type = fileType, pd_content = text, pd_originalData = Inr text,
                         pd_structure = None, pd_pages = None \<rparr>)"

section \<open>The download name (downloadFile)\<close>

record 'b FileWithStatus =
  item_file :: "'b File"
  item_resultBlob :: "blob option"

definition downloadFile :: "'b FileWithStatus \<Rightarrow> (blob \<times> string) option" where
  \<comment> \<open>the arguments of the call of \<open>saveAs\<close>, if it is made; an \<open>undefined\<close> extension
      would print as \<open>undefined\<close> in the template\<close>
  "downloadFile item =
     (case item_resultBlob item of
        None \<Rightarrow> None
      | Some resultBlob \<Rightarrow>
          let name = file_name (item_file item);
              ext0 = pop (split_char CHR ''.'' name);
              ext1 = (if file_type (item_file item) = ''application/pdf'' then Some ''txt'' else ext0);
              ext = (case ext1 of None \<Rightarrow> ''undefined'' | Some e \<Rightarrow> e)
          in Some (resultBlob, ''translated_'' @ replace_first (''.'' @ ext) [] name @ ''.'' @ ext))"

section \<open>Stubs of the remote service and sample inputs\<close>

definition toUpperCaseAscii :: "string \<Rightarrow> string" where
  "toUpperCaseAscii s =
     map (\<lambda>c. let n = (of_char c :: nat) in if 97 \<le> n \<and> n \<le> 122 then char_of (n - 32) else c) s"

definition stub_config :: TranslationConfig where
  "stub_config = \<lparr> apiKey = ''key'', baseUrl = None, model = None, targetLang = Zh \<rparr>"

definition stub_io :: "nat io" where
  "stub_io = \<lparr> world = 0, sent = [] \<rparr>"

definition stub_remote :: "(string \<Rightarrow> string) \<Rightarrow> nat remote" where
  \<comment> \<open>a service that answers every request with \<open>f\<close> of the user text, in one chunk, and
      counts its calls\<close>
  "stub_remote f w req = (\<lparr> deltas = [Some (f (req_user req))], failure = None \<rparr>, Suc w)"

definition stub_remote_failing_on :: "string \<Rightarrow> (string \<Rightarrow> string) \<Rightarrow> nat remote" where
  \<comment> \<open>the same, but the call fails when the user text is \<open>bad\<close>\<close>
  "stub_remote_failing_on bad f w req =
     (if req_user req = bad then (\<lparr> deltas = [], failure = Some ''rate limited'' \<rparr>, Suc w)
      else stub_remote f w req)"

definition stub_remote_silent :: "nat remote" where
  \<comment> \<open>a service whose stream ends without any content\<close>
  "stub_remote_silent w req = (\<lparr> deltas = [None, Some []], failure = None \<rparr>, Suc w)"

definition sample_blob :: blob where
  "sample_blob = \<lparr> blob_content = ''translated text'', blob_type = ''text/plain'' \<rparr>"

definition sample_pdf_item :: "unit FileWithStatus" where
  \<comment> \<open>a completed PDF job, as the browser describes the uploaded file\<close>
  "sample_pdf_item =
     \<lparr> item_file = \<lparr> file_name = ''report.pdf'', file_type = ''application/pdf'',
                      file_arrayBuffer = (), file_text = [] \<rparr>,
       item_resultBlob = Some sample_blob \<rparr>"

definition sample_md_item :: "unit FileWithStatus" where
  "sample_md_item =
     \<lparr> item_file = \<lparr> file_name = ''notes.md'', file_type = [],
                      file_arrayBuffer = (), file_text = [] \<rparr>,
       item_resultBlob = Some sample_blob \<rparr>"

definition stub_loadAsync :: "(string \<rightharpoonup> string) \<Rightarrow> unit \<Rightarrow> string + (string \<rightharpoonup> string)" where
  \<comment> \<open>unpacking succeeds and yields the given archive\<close>
  "stub_loadAsync archive buffer = Inr archive"

definition stub_getDocument :: "unit \<Rightarrow> string + string list list" where
  "stub_getDocument buffer = Inr [[''page'', ''one''], [''page'', ''two'']]"

definition sample_archive_empty_body :: "string \<rightharpoonup> string" where
  \<comment> \<open>an archive that has the part \<open>word/document.xml\<close>, with nothing in it\<close>
  "sample_archive_empty_body = [''word/document.xml'' \<mapsto> [], ''[Content_Types].xml'' \<mapsto> ''<Types/>'']"

definition sample_file :: "string \<Rightarrow> unit File" where
  "sample_file name =
     \<lparr> file_name = name, file_type = [], file_arrayBuffer = (), file_text = ''some text'' \<rparr>"

definition sample_docx_xml :: xml where
  \<comment> \<open>two paragraphs; the second text node of the first paragraph is blank\<close>
  "sample_docx_xml =
     Element ''w:document'' [Element ''w:body''
       [Element ''w:p'' [Element ''w:r'' [Element ''w:t'' [Text ''hello'']],
                         Element ''w:r'' [Element ''w:t'' [Text '' '']]],
        Element ''w:p'' [Element ''w:r'' [Element ''w:t'' [Text ''world'']]]]]"

definition sample_nested_xml :: xml where
  \<comment> \<open>well-formed XML that is not valid DOCX: a \<open>w:t\<close> element inside a \<open>w:t\<close> element\<close>
  "sample_nested_xml =
     Element ''w:document'' [Element ''w:body''
       [Element ''w:p'' [Element ''w:t'' [Text ''one '', Element ''w:t'' [Text ''two'']],
                         Element ''w:t'' [Text ''three'']]]]"

definition sample_paragraphs :: "xml \<Rightarrow> node list" where
  \<comment> \<open>the array \<open>paragraphs\<close> of \<open>translateDocx\<close> for a parsed document\<close>
  "sample_paragraphs t = document_getElementsByTagName (new_document t) ''w:p''"

definition sample_translations :: "xml \<Rightarrow> string list" where
  \<comment> \<open>\<open>translatedTexts\<close> when the service upper-cases every text\<close>
  "sample_translations t =
     fst (translateBatch (stub_remote toUpperCaseAscii)
            (snd (extractParagraphs (new_document t) (sample_paragraphs t) []))
            stub_config stub_io)"

definition sample_written_back :: "xml \<Rightarrow> string list \<Rightarrow> document \<times> nat" where
  \<comment> \<open>the document and \<open>tIndex\<close> after both passes, for given \<open>translatedTexts\<close>\<close>
  "sample_written_back t translatedTexts =
     writeParagraphs (fst (extractParagraphs (new_document t) (sample_paragraphs t) []))
       (sample_paragraphs t) translatedTexts 0"

definition sample_textbox_xml :: xml where
  \<comment> \<open>a paragraph with a text box: the paragraph inside the box lies below the outer
      paragraph, so its text node is found from both\<close>
  "sample_textbox_xml =
     Element ''w:document'' [Element ''w:body''
       [Element ''w:p''
          [Element ''w:r'' [Element ''w:t'' [Text ''before'']],
           Element ''w:r'' [Element ''w:pict'' [Element ''w:txbxContent''
             [Element ''w:p'' [Element ''w:r'' [Element ''w:t'' [Text ''inside'']]]]]],
           Element ''w:r'' [Element ''w:t'' [Text ''after'']]]]]"

section \<open>Notions used to state the properties\<close>

definition state_before ::
  "'w remote \<Rightarrow> TranslationConfig \<Rightarrow> string list \<Rightarrow> 'w io \<Rightarrow> nat \<Rightarrow> 'w io" where
  \<comment> \<open>the state in which \<open>translateBatch\<close> reaches chunk \<open>i\<close>: the one the loop over the
      first \<open>i\<close> chunks leaves\<close>
  "state_before remote config texts s i =
     snd (snd (translateBatch_from remote config (length texts) 0 (take i texts) s))"

fun progress_calls :: "event list \<Rightarrow> (nat \<times> nat) list" where
  \<comment> \<open>the arguments of the calls of \<open>onBatchProgress\<close>, in order\<close>
  "progress_calls [] = []"
| "progress_calls (OnBatchProgress completed n # es) = (completed, n) # progress_calls es"
| "progress_calls (e # es) = progress_calls es"

fun failure_logs :: "event list \<Rightarrow> nat" where
  \<comment> \<open>the number of error logs for a failed part\<close>
  "failure_logs [] = 0"
| "failure_logs (OnLog (TranslateFailed i n msg) lvl # es) = Suc (failure_logs es)"
| "failure_logs (e # es) = failure_logs es"

definition blank :: "string \<Rightarrow> bool" where
  \<comment> \<open>empty or white space only: the texts \<open>translateText\<close> returns at once\<close>
  "blank text \<longleftrightarrow> text = [] \<or> trim text = []"

fun double_newline :: "string \<Rightarrow> bool" where
  \<comment> \<open>the string contains two adjacent line feeds\<close>
  "double_newline (a # b # s) \<longleftrightarrow> (a = CHR 0x0A \<and> b = CHR 0x0A) \<or> double_newline (b # s)"
| "double_newline s \<longleftrightarrow> False"

definition after_last_dot :: "string \<Rightarrow> string" where
  \<comment> \<open>the text after the last dot of a name; the whole name when it has no dot\<close>
  "after_last_dot name = rev (takeWhile (\<lambda>c. c \<noteq> CHR ''.'') (rev name))"

definition marked_visits :: "xml \<Rightarrow> node list" where
  \<comment> \<open>the text nodes the first pass extracts, in its order: paragraph by paragraph, the
      \<open>w:t\<close> elements below the paragraph whose text is not blank\<close>
  "marked_visits t =
     (let d = new_document t
      in concat (map (\<lambda>p. filter (\<lambda>q. length (trim (textContent d q)) > 0)
                              (getElementsByTagName d p ''w:t''))
                     (document_getElementsByTagName d ''w:p'')))"

fun write_positional :: "(node \<rightharpoonup> string) \<Rightarrow> string list \<Rightarrow> nat \<Rightarrow> node list \<Rightarrow> (node \<rightharpoonup> string)" where
  \<comment> \<open>positional write-back: the node visited \<open>j\<close>-th receives the string at index
      \<open>k + j\<close>, unless that string is missing or empty\<close>
  "write_positional w tr k [] = w"
| "write_positional w tr k (q # qs) =
     write_positional (if truthy_at tr k then w(q \<mapsto> tr ! k) else w) tr (k + 1) qs"

fun has_element :: "string \<Rightarrow> xml \<Rightarrow> bool" where
  \<comment> \<open>the tree is or contains an element named \<open>tag\<close>\<close>
  "has_element tag (Text s) \<longleftrightarrow> False"
| "has_element tag (Element name children) \<longleftrightarrow>
     name = tag \<or> (\<exists>c\<in>set children. has_element tag c)"

fun text_leaves :: "xml \<Rightarrow> bool" where
  \<comment> \<open>no \<open>w:t\<close> element contains another \<open>w:t\<close> element, as the format of DOCX requires\<close>
  "text_leaves (Text s) \<longleftrightarrow> True"
| "text_leaves (Element name children) \<longleftrightarrow>
     (name = ''w:t'' \<longrightarrow> (\<forall>c\<in>set children. \<not> has_element ''w:t'' c)) \<and>
     (\<forall>c\<in>set children. text_leaves c)"

definition no_text_below :: "xml \<Rightarrow> node \<Rightarrow> bool" where
  \<comment> \<open>the element at \<open>q\<close> (if there is one) has no \<open>w:t\<close> element below it\<close>
  "no_text_below t q \<longleftrightarrow>
     (case node_at t q of
        Some (Element name children) \<Rightarrow> \<forall>c\<in>set children. \<not> has_element ''w:t'' c
      | _ \<Rightarrow> True)"

definition children_at :: "xml \<Rightarrow> node \<Rightarrow> nat \<Rightarrow> xml list \<Rightarrow> bool" where
  \<comment> \<open>\<open>cs\<close> are the children of the element at \<open>p\<close> from index \<open>i\<close> on\<close>
  "children_at t p i cs \<longleftrightarrow> (\<forall>j<length cs. node_at t (p @ [i + j]) = Some (cs ! j))"

section \<open>Properties of the batch translator\<close>

lemma trim_empty_iff: "trim s = [] \<longleftrightarrow> (\<forall>c\<in>set s. isWhiteSpace c)"
proof
  assume "trim s = []"
  then have a: "\<forall>x\<in>set (dropWhile isWhiteSpace s). isWhiteSpace x"
    by (simp add: trim_def)
  have "dropWhile isWhiteSpace s = []"
  proof (rule ccontr)
    assume n: "dropWhile isWhiteSpace s \<noteq> []"
    then have "\<not> isWhiteSpace (hd (dropWhile isWhiteSpace s))" by (rule hd_dropWhile)
    with a n show False by (meson hd_in_set)
  qed
  then show "\<forall>c\<in>set s. isWhiteSpace c" by simp
next
  assume "\<forall>c\<in>set s. isWhiteSpace c"
  then have d: "dropWhile isWhiteSpace s = []" by simp
  show "trim s = []" unfolding trim_def d by simp
qed

lemma translateBatch_from_append:
  "translateBatch_from remote config len i (xs @ ys) s =
     (let (r1, e1, s1) = translateBatch_from remote config len i xs s;
          (r2, e2, s2) = translateBatch_from remote config len (i + length xs) ys s1
      in (r1 @ r2, e1 @ e2, s2))"
  by (induction xs arbitrary: i s) (simp_all add: Let_def split: prod.splits sum.splits)

lemma translateBatch_from_length:
  "length (fst (translateBatch_from remote config len i xs s)) = length xs"
proof (induction xs arbitrary: i s)
  case Nil
  then show ?case by simp
next
  case (Cons t ts)
  obtain outcome calls s1 where tt: "translateText remote t config s = (outcome, calls, s1)"
    by (cases "translateText remote t config s") auto
  obtain rs evs s2 where rest: "translateBatch_from remote config len (i + 1) ts s1 = (rs, evs, s2)"
    by (cases "translateBatch_from remote config len (i + 1) ts s1") auto
  have "length rs = length ts" using Cons.IH [of "i + 1" s1] rest by simp
  then show ?case using tt rest by (simp split: sum.splits)
qed


lemma stub_run_results:
  "fst (translateBatch (stub_remote_failing_on ''bad'' toUpperCaseAscii)
          [''ab'', ''bad'', ''cd''] stub_config stub_io) = [''AB'', ''bad'', ''CD'']"
  by code_simp

lemma stub_run_events:
  "fst (snd (translateBatch (stub_remote_failing_on ''bad'' toUpperCaseAscii)
          [''ab'', ''bad'', ''cd''] stub_config stub_io)) =
     [OnLog (Translating 1 3 ''ab'') Info, OnLog (Translated 1 3) Success,
      OnBatchProgress 1 3, OnLog (Translating 2 3 ''bad'') Info,
      ConsoleError 1 ''rate limited'',
      OnLog (TranslateFailed 2 3 ''rate limited'') Error,
      OnLog (Translating 3 3 ''cd'') Info, OnLog (Translated 3 3) Success,
      OnBatchProgress 3 3]"
  by code_simp

lemma stub_run_fails_at_1:
  "fst (translateText (stub_remote_failing_on ''bad'' toUpperCaseAscii) ([''ab'', ''bad'', ''cd''] ! 1)
          stub_config
          (state_before (stub_remote_failing_on ''bad'' toUpperCaseAscii) stub_config
             [''ab'', ''bad'', ''cd''] stub_io 1)) = Inl ''rate limited''"
  by code_simp

lemma req_user_make_request [simp]: "req_user (make_request config text) = text"
  by (simp add: make_request_def)

lemma translateText_stub_remote:
  "translateText (stub_remote f) text config s =
     (if blank text then (Inr text, [], s)
      else (Inr (f text), (if f text = [] then [] else [f text]),
            s\<lparr>world := Suc (world s), sent := sent s @ [make_request config text]\<rparr>))"
  by (simp add: translateText_def blank_def stub_remote_def js_or_def Let_def)

lemma translateBatch_from_stub_remote:
  "fst (translateBatch_from (stub_remote f) config len i texts s) =
     map (\<lambda>t. if blank t then t else f t) texts"
proof (induction texts arbitrary: i s)
  case Nil
  then show ?case by simp
next
  case (Cons t ts)
  obtain outcome calls s1 where tt: "translateText (stub_remote f) t config s = (outcome, calls, s1)"
    by (cases "translateText (stub_remote f) t config s") auto
  have out: "outcome = Inr (if blank t then t else f t)"
    using tt by (simp add: translateText_stub_remote split: if_splits)
  obtain rs evs s2 where rest:
    "translateBatch_from (stub_remote f) config len (i + 1) ts s1 = (rs, evs, s2)"
    by (cases "translateBatch_from (stub_remote f) config len (i + 1) ts s1") auto
  have "rs = map (\<lambda>t. if blank t then t else f t) ts"
    using Cons.IH [of "i + 1" s1] rest by simp
  then show ?case using tt rest out by simp
qed

lemma translateBatch_stub_remote:
  "fst (translateBatch (stub_remote f) texts config s) = map (\<lambda>t. if blank t then t else f t) texts"
  by (simp add: translateBatch_def translateBatch_from_stub_remote)

lemma translateText_sent:
  "sent (snd (snd (translateText remote text config s))) =
     sent s @ (if blank text then [] else [make_request config text])"
  by (simp add: translateText_def blank_def Let_def split: prod.splits option.splits)

lemma translateBatch_from_sent:
  "sent (snd (snd (translateBatch_from remote config len i texts s))) =
     sent s @ map (make_request config) (filter (\<lambda>t. \<not> blank t) texts)"
proof (induction texts arbitrary: i s)
  case Nil
  then show ?case by simp
next
  case (Cons t ts)
  obtain outcome calls s1 where tt: "translateText remote t config s = (outcome, calls, s1)"
    by (cases "translateText remote t config s") auto
  have s1: "sent s1 = sent s @ (if blank t then [] else [make_request config t])"
    using translateText_sent [of remote t config s] tt by simp
  obtain rs evs s2 where rest: "translateBatch_from remote config len (i + 1) ts s1 = (rs, evs, s2)"
    by (cases "translateBatch_from remote config len (i + 1) ts s1") auto
  have "sent s2 = sent s1 @ map (make_request config) (filter (\<lambda>t. \<not> blank t) ts)"
    using Cons.IH [of "i + 1" s1] rest by simp
  then show ?case using tt rest s1 by (simp split: sum.splits)
qed

text \<open>
  C1. For every list of chunks, every configuration and every behaviour of the remote
  service, \<open>translateBatch\<close> returns as many results as there are chunks, and the
  result at position \<open>i\<close> is the translation of chunk \<open>i\<close> when the call made for it
  (in the state the loop has reached) returns, and chunk \<open>i\<close> itself when that call fails.
\<close>

theorem translateBatch_same_length_and_order:
  "length (fst (translateBatch remote texts config s)) = length texts \<and>
   (\<forall>i<length texts.
      fst (translateBatch remote texts config s) ! i =
        (case fst (translateText remote (texts ! i) config (state_before remote config texts s i)) of
           Inr translated \<Rightarrow> translated
         | Inl msg \<Rightarrow> texts ! i))"
proof (intro conjI allI impI)
  show "length (fst (translateBatch remote texts config s)) = length texts"
    by (simp add: translateBatch_def translateBatch_from_length)
next
  fix i assume i: "i < length texts"
  let ?n = "length texts"
  obtain r1 e1 s1 where pre: "translateBatch_from remote config ?n 0 (take i texts) s = (r1, e1, s1)"
    by (cases "translateBatch_from remote config ?n 0 (take i texts) s") auto
  have l1: "length r1 = i"
    using translateBatch_from_length [of remote config ?n 0 "take i texts" s] pre i by simp
  obtain outcome calls s1' where tt: "translateText remote (texts ! i) config s1 = (outcome, calls, s1')"
    by (cases "translateText remote (texts ! i) config s1") auto
  obtain r3 e3 s3 where post:
    "translateBatch_from remote config ?n (i + 1) (drop (Suc i) texts) s1' = (r3, e3, s3)"
    by (cases "translateBatch_from remote config ?n (i + 1) (drop (Suc i) texts) s1'") auto
  have split: "texts = take i texts @ texts ! i # drop (Suc i) texts"
    using i by (simp add: id_take_nth_drop)
  have "translateBatch remote texts config s =
          translateBatch_from remote config ?n 0 (take i texts @ texts ! i # drop (Suc i) texts) s"
    using split by (simp add: translateBatch_def)
  then have "fst (translateBatch remote texts config s) =
          r1 @ (case outcome of Inr translated \<Rightarrow> translated | Inl msg \<Rightarrow> texts ! i) # r3"
    using pre tt post i
    by (simp add: translateBatch_from_append min_absorb2 split: sum.splits)
  then show "fst (translateBatch remote texts config s) ! i =
        (case fst (translateText remote (texts ! i) config (state_before remote config texts s i)) of
           Inr translated \<Rightarrow> translated
         | Inl msg \<Rightarrow> texts ! i)"
    using l1 pre tt by (simp add: state_before_def nth_append)
qed

theorem translateBatch_same_length_and_order_witness:
  "length (fst (translateBatch (stub_remote_failing_on ''bad'' toUpperCaseAscii)
          [''ab'', ''bad'', ''cd''] stub_config stub_io)) = 3 \<and>
   fst (translateBatch (stub_remote_failing_on ''bad'' toUpperCaseAscii)
          [''ab'', ''bad'', ''cd''] stub_config stub_io) ! 1 = ''bad''"
  using translateBatch_same_length_and_order
          [of "stub_remote_failing_on ''bad'' toUpperCaseAscii" "[''ab'', ''bad'', ''cd'']"
              stub_config stub_io]
        stub_run_fails_at_1
  by simp

text \<open>
  C2. If the call made for chunk \<open>i\<close> fails with message \<open>msg\<close>, then the result at
  position \<open>i\<close> is chunk \<open>i\<close> unchanged, an error is logged for part \<open>i + 1\<close>, and the
  run goes on: the whole run is the run over the first \<open>i\<close> chunks, then the fallback
  for chunk \<open>i\<close>, then the run over the chunks from \<open>i + 1\<close> on, started in the state the
  failed call left.
\<close>

theorem translateBatch_failure_falls_back:
  assumes i: "i < length texts"
    and fail: "fst (translateText remote (texts ! i) config (state_before remote config texts s i)) = Inl msg"
  shows "fst (translateBatch remote texts config s) ! i = texts ! i \<and>
         OnLog (TranslateFailed (i + 1) (length texts) msg) Error
           \<in> set (fst (snd (translateBatch remote texts config s))) \<and>
         (let (r1, e1, s1) = translateBatch_from remote config (length texts) 0 (take i texts) s;
              s1' = snd (snd (translateText remote (texts ! i) config s1));
              (r3, e3, s3) =
                translateBatch_from remote config (length texts) (i + 1) (drop (i + 1) texts) s1'
          in translateBatch remote texts config s =
               (r1 @ [texts ! i] @ r3,
                e1 @ [OnLog (Translating (i + 1) (length texts) (previewText (texts ! i))) Info,
                      ConsoleError i msg,
                      OnLog (TranslateFailed (i + 1) (length texts) msg) Error] @ e3,
                s3) \<and>
             length r1 = i \<and> length r3 = length texts - (i + 1))"
proof -
  let ?n = "length texts"
  obtain r1 e1 s1 where pre: "translateBatch_from remote config ?n 0 (take i texts) s = (r1, e1, s1)"
    by (cases "translateBatch_from remote config ?n 0 (take i texts) s") auto
  have l1: "length r1 = i"
    using translateBatch_from_length [of remote config ?n 0 "take i texts" s] pre i by simp
  have s1: "state_before remote config texts s i = s1"
    using pre by (simp add: state_before_def)
  obtain calls s1' where tt: "translateText remote (texts ! i) config s1 = (Inl msg, calls, s1')"
    using fail s1 by (cases "translateText remote (texts ! i) config s1") auto
  obtain r3 e3 s3 where post:
    "translateBatch_from remote config ?n (i + 1) (drop (i + 1) texts) s1' = (r3, e3, s3)"
    by (cases "translateBatch_from remote config ?n (i + 1) (drop (i + 1) texts) s1'") auto
  have l3: "length r3 = ?n - (i + 1)"
    using translateBatch_from_length [of remote config ?n "i + 1" "drop (i + 1) texts" s1'] post
    by simp
  have split: "texts = take i texts @ texts ! i # drop (Suc i) texts"
    using i by (simp add: id_take_nth_drop)
  have "translateBatch remote texts config s =
          translateBatch_from remote config ?n 0 (take i texts @ texts ! i # drop (Suc i) texts) s"
    using split by (simp add: translateBatch_def)
  then have whole: "translateBatch remote texts config s =
      (r1 @ [texts ! i] @ r3,
       e1 @ [OnLog (Translating (i + 1) ?n (previewText (texts ! i))) Info,
             ConsoleError i msg,
             OnLog (TranslateFailed (i + 1) ?n msg) Error] @ e3,
       s3)"
    using pre tt post i by (simp add: translateBatch_from_append min_absorb2)
  have "fst (translateBatch remote texts config s) ! i = texts ! i"
    using whole l1 by (simp add: nth_append)
  moreover have "OnLog (TranslateFailed (i + 1) ?n msg) Error
           \<in> set (fst (snd (translateBatch remote texts config s)))"
    using whole by simp
  ultimately show ?thesis
    using whole pre tt post l1 l3 by simp
qed


theorem translateBatch_failure_falls_back_witness:
  "fst (translateBatch (stub_remote_failing_on ''bad'' toUpperCaseAscii)
          [''ab'', ''bad'', ''cd''] stub_config stub_io) ! 1 = ''bad'' \<and>
   OnLog (TranslateFailed 2 3 ''rate limited'') Error
     \<in> set (fst (snd (translateBatch (stub_remote_failing_on ''bad'' toUpperCaseAscii)
          [''ab'', ''bad'', ''cd''] stub_config stub_io)))"
proof -
  have lt: "1 < length [''ab'', ''bad'', ''cd'']" by simp
  note t = translateBatch_failure_falls_back [OF lt stub_run_fails_at_1]
  have a: "fst (translateBatch (stub_remote_failing_on ''bad'' toUpperCaseAscii)
          [''ab'', ''bad'', ''cd''] stub_config stub_io) ! 1 = ''bad''"
    using t [THEN conjunct1] by simp
  have b: "OnLog (TranslateFailed 2 3 ''rate limited'') Error
     \<in> set (fst (snd (translateBatch (stub_remote_failing_on ''bad'' toUpperCaseAscii)
          [''ab'', ''bad'', ''cd''] stub_config stub_io)))"
    using t [THEN conjunct2, THEN conjunct1] by (simp add: eval_nat_numeral)
  from a b show ?thesis by (rule conjI)
qed

text \<open>
  C3. The claim is that \<open>onBatchProgress\<close> is called once per chunk, with counts
  \<open>1, 2, ..., n\<close>. The code calls it only after a chunk is translated: with the second
  of three chunks failing it is called twice, with the counts 1 and 3.
\<close>

theorem translateBatch_progress_skips_failed_chunk:
  "progress_calls (fst (snd (translateBatch (stub_remote_failing_on ''bad'' toUpperCaseAscii)
       [''ab'', ''bad'', ''cd''] stub_config stub_io))) = [(1, 3), (3, 3)]"
  by (simp add: stub_run_events)

text \<open>
  In general every chunk gives either one progress call or one error log, never both:
  the progress calls are as many as the chunks that were translated.
\<close>

lemma progress_calls_append [simp]:
  "progress_calls (xs @ ys) = progress_calls xs @ progress_calls ys"
  by (induction xs rule: progress_calls.induct) simp_all

lemma failure_logs_append [simp]:
  "failure_logs (xs @ ys) = failure_logs xs + failure_logs ys"
  by (induction xs rule: failure_logs.induct) simp_all

lemma translateBatch_from_progress_or_failure:
  "length (progress_calls (fst (snd (translateBatch_from remote config len i texts s)))) +
     failure_logs (fst (snd (translateBatch_from remote config len i texts s))) = length texts"
proof (induction texts arbitrary: i s)
  case Nil
  then show ?case by simp
next
  case (Cons t ts)
  obtain outcome calls s1 where tt: "translateText remote t config s = (outcome, calls, s1)"
    by (cases "translateText remote t config s") auto
  obtain rs evs s2 where rest: "translateBatch_from remote config len (i + 1) ts s1 = (rs, evs, s2)"
    by (cases "translateBatch_from remote config len (i + 1) ts s1") auto
  have "length (progress_calls evs) + failure_logs evs = length ts"
    using Cons.IH [of "i + 1" s1] rest by simp
  then show ?case using tt rest by (cases outcome) simp_all
qed

lemma translateBatch_progress_or_failure:
  "length (progress_calls (fst (snd (translateBatch remote texts config s)))) +
     failure_logs (fst (snd (translateBatch remote texts config s))) = length texts"
  by (simp add: translateBatch_def translateBatch_from_progress_or_failure)

section \<open>Properties of the translation client\<close>

text \<open>
  C6. A text that is empty or consists of white space only is returned unchanged, and
  the state is the one before the call: no request is sent and the service is not
  called.
\<close>

theorem translateText_blank:
  "(\<forall>c\<in>set text. isWhiteSpace c) \<Longrightarrow>
     translateText remote text config s = (Inr text, [], s)"
  by (simp add: translateText_def trim_empty_iff)

theorem translateText_blank_witness:
  "translateText (stub_remote toUpperCaseAscii) '' \<newline> '' stub_config stub_io
     = (Inr '' \<newline> '', [], stub_io)"
  by (rule translateText_blank) (simp add: isWhiteSpace_def)

section \<open>Properties of the Markdown and PDF reassemblers\<close>

lemma dropWhile_newlines:
  "rest = [] \<or> hd rest \<noteq> CHR 0x0A \<Longrightarrow>
     dropWhile (\<lambda>c. c = CHR 0x0A) (replicate k (CHR 0x0A) @ rest) = rest"
proof (induction k)
  case 0
  then show ?case by (cases rest) auto
next
  case (Suc k)
  then show ?case by simp
qed

lemma split_newlines_run:
  assumes "\<not> double_newline u" and "u = [] \<or> last u \<noteq> CHR 0x0A"
    and "rest = [] \<or> hd rest \<noteq> CHR 0x0A"
  shows "split_newlines cur (u @ replicate (k + 2) (CHR 0x0A) @ rest) =
           (cur @ u) # split_newlines [] rest"
  using assms
proof (induction u arbitrary: cur)
  case Nil
  have "dropWhile (\<lambda>c. c = CHR 0x0A) (CHR 0x0A # replicate k (CHR 0x0A) @ rest) = rest"
    using dropWhile_newlines [of rest k] Nil.prems(3) by simp
  then show ?case by simp
next
  case (Cons a u)
  show ?case
  proof (cases u)
    case Nil
    then have "a \<noteq> CHR 0x0A" using Cons.prems(2) by simp
    then show ?thesis using Cons.IH [of "cur @ [a]"] Cons.prems Nil by simp
  next
    case (Cons b u')
    then have nd: "\<not> (a = CHR 0x0A \<and> b = CHR 0x0A)" and "\<not> double_newline u"
      using Cons.prems(1) by auto
    moreover have "u = [] \<or> last u \<noteq> CHR 0x0A" using Cons.prems(2) Cons by simp
    ultimately have "split_newlines (cur @ [a]) (u @ replicate (k + 2) (CHR 0x0A) @ rest) =
           ((cur @ [a]) @ u) # split_newlines [] rest"
      using Cons.IH [of "cur @ [a]"] Cons.prems(3) by blast
    then show ?thesis using nd Cons by simp
  qed
qed

lemma split_newlines_no_run:
  "\<not> double_newline s \<Longrightarrow> split_newlines cur s = [cur @ s]"
proof (induction s arbitrary: cur)
  case Nil
  then show ?case by simp
next
  case (Cons a s)
  then show ?case by (cases s) auto
qed

text \<open>
  C5. The sample input splits into the three paragraphs \<open>A\<close>, \<open>B\<close>, \<open>C\<close>, and with a
  service that echoes its input the result is \<open>A\<close>, \<open>B\<close>, \<open>C\<close> joined by one double line
  feed. For every content, the echoing service gives the paragraphs of the split joined
  by double line feeds, and any service gives the results of the batch translator over
  those paragraphs joined by double line feeds. The split cuts at a run of two or more line feeds: a piece \<open>u\<close>
  without two adjacent line feeds, not ending in a line feed, followed by a run of
  \<open>k + 2\<close> line feeds that ends there, is the first paragraph, and the rest is split in the
  same way; a text without two adjacent line feeds is one paragraph.
\<close>

theorem translateMarkdown_splits_and_rejoins:
  "split_newlines [] ''A\<newline>\<newline>B\<newline>\<newline>\<newline>C'' = [''A'', ''B'', ''C''] \<and>
   fst (translateMarkdown (stub_remote id) ''A\<newline>\<newline>B\<newline>\<newline>\<newline>C'' config s) =
     \<lparr> blob_content = ''A\<newline>\<newline>B\<newline>\<newline>C'', blob_type = ''text/markdown'' \<rparr> \<and>
   fst (translateMarkdown (stub_remote id) content config s) =
     \<lparr> blob_content = join ''\<newline>\<newline>'' (split_newlines [] content),
       blob_type = ''text/markdown'' \<rparr> \<and>
   fst (translateMarkdown remote content config s') =
     \<lparr> blob_content =
         join ''\<newline>\<newline>'' (fst (translateBatch remote (split_newlines [] content) config s')),
       blob_type = ''text/markdown'' \<rparr> \<and>
   (\<not> double_newline u \<and> (u = [] \<or> last u \<noteq> CHR 0x0A) \<and> (rest = [] \<or> hd rest \<noteq> CHR 0x0A) \<longrightarrow>
      split_newlines [] (u @ replicate (k + 2) (CHR 0x0A) @ rest) = u # split_newlines [] rest) \<and>
   (\<not> double_newline u \<longrightarrow> split_newlines [] u = [u])"
proof -
  have ex: "split_newlines [] ''A\<newline>\<newline>B\<newline>\<newline>\<newline>C'' = [''A'', ''B'', ''C'']"
    by simp
  have gen: "fst (translateMarkdown (stub_remote id) c config s) =
     \<lparr> blob_content = join ''\<newline>\<newline>'' (split_newlines [] c), blob_type = ''text/markdown'' \<rparr>" for c
  proof -
    obtain rs evs s' where run:
      "translateBatch (stub_remote id) (split_newlines [] c) config s = (rs, evs, s')"
      by (cases "translateBatch (stub_remote id) (split_newlines [] c) config s") auto
    have "rs = map (\<lambda>t. if blank t then t else id t) (split_newlines [] c)"
      using translateBatch_stub_remote [of id "split_newlines [] c" config s] run by simp
    then have "rs = split_newlines [] c" by (simp add: map_idI)
    then show ?thesis using run by (simp add: translateMarkdown_def Let_def)
  qed
  have run: "\<not> double_newline u \<and> (u = [] \<or> last u \<noteq> CHR 0x0A) \<and> (rest = [] \<or> hd rest \<noteq> CHR 0x0A) \<longrightarrow>
      split_newlines [] (u @ replicate (k + 2) (CHR 0x0A) @ rest) = u # split_newlines [] rest"
    using split_newlines_run [of u rest "[]" k] by simp
  have norun: "\<not> double_newline u \<longrightarrow> split_newlines [] u = [u]"
    using split_newlines_no_run [of u "[]"] by simp
  have ex2: "fst (translateMarkdown (stub_remote id) ''A\<newline>\<newline>B\<newline>\<newline>\<newline>C'' config s) =
     \<lparr> blob_content = ''A\<newline>\<newline>B\<newline>\<newline>C'', blob_type = ''text/markdown'' \<rparr>"
    using gen [of "''A\<newline>\<newline>B\<newline>\<newline>\<newline>C''"] ex by simp
  have any: "fst (translateMarkdown remote content config s') =
     \<lparr> blob_content =
         join ''\<newline>\<newline>'' (fst (translateBatch remote (split_newlines [] content) config s')),
       blob_type = ''text/markdown'' \<rparr>"
    by (simp add: translateMarkdown_def Let_def split: prod.splits)
  show ?thesis using ex ex2 gen [of content] any run norun by blast
qed

theorem translateMarkdown_splits_and_rejoins_witness:
  "split_newlines [] (''A'' @ replicate (1 + 2) (CHR 0x0A) @ ''C'') = [''A'', ''C'']"
proof -
  note t = translateMarkdown_splits_and_rejoins
    [where u = "''A''" and rest = "''C''" and k = 1]
  have a: "\<not> double_newline ''A'' \<and> (''A'' = [] \<or> last ''A'' \<noteq> CHR 0x0A) \<and>
           (''C'' = [] \<or> hd ''C'' \<noteq> CHR 0x0A)" by simp
  have c: "\<not> double_newline ''C''" by simp
  have "split_newlines [] (''A'' @ replicate (1 + 2) (CHR 0x0A) @ ''C'') = ''A'' # split_newlines [] ''C''"
    using t [THEN conjunct2, THEN conjunct2, THEN conjunct2, THEN conjunct2, THEN conjunct1] a
    by blast
  moreover have "split_newlines [] ''C'' = [''C'']"
    using translateMarkdown_splits_and_rejoins
      [where u = "''C''", THEN conjunct2, THEN conjunct2, THEN conjunct2, THEN conjunct2,
        THEN conjunct2] c by blast
  ultimately show ?thesis by simp
qed

lemma translatePdfPages_content:
  "fst (translatePdfPages remote pages config s) =
     \<lparr> blob_content = join pageBreak (fst (translateBatch remote pages config s)),
       blob_type = ''text/plain'' \<rparr>"
  by (simp add: translatePdfPages_def Let_def split: prod.splits)

lemma translatePdfPages_sent:
  "sent (snd (snd (translatePdfPages remote pages config s))) =
     sent s @ map (make_request config) (filter (\<lambda>t. \<not> blank t) pages)"
proof -
  have "snd (snd (translatePdfPages remote pages config s)) =
          snd (snd (translateBatch remote pages config s))"
    by (simp add: translatePdfPages_def Let_def split: prod.splits)
  then show ?thesis by (simp add: translateBatch_def translateBatch_from_sent)
qed

lemma pageBreak_text:
  "pageBreak = ''\<newline>\<newline>-------------------- Page Break --------------------\<newline>\<newline>''"
  by code_simp

text \<open>
  C7. For every list of pages, the result is a plain-text blob whose content is the
  results of the batch translator over the pages, in order, joined by the page-break
  line; the requests sent are one per non-blank page, in page order. With a service
  that answers \<open>f\<close> of the page, the content is the pages mapped by \<open>f\<close> (blank pages as
  they are) joined by the page break; the two sample pages with the upper-casing
  service give the two upper-cased pages around one page break.
\<close>

theorem translatePdfPages_joins_pages_in_order:
  "fst (translatePdfPages remote pages config s) =
     \<lparr> blob_content = join pageBreak (fst (translateBatch remote pages config s)),
       blob_type = ''text/plain'' \<rparr> \<and>
   map req_user (sent (snd (snd (translatePdfPages remote pages config s)))) =
     map req_user (sent s) @ filter (\<lambda>t. \<not> blank t) pages \<and>
   pageBreak = ''\<newline>\<newline>-------------------- Page Break --------------------\<newline>\<newline>'' \<and>
   blob_content (fst (translatePdfPages (stub_remote f) pages config s')) =
     join pageBreak (map (\<lambda>t. if blank t then t else f t) pages) \<and>
   fst (translatePdfPages (stub_remote toUpperCaseAscii) [''page one'', ''page two''] config s') =
     \<lparr> blob_content =
         ''PAGE ONE\<newline>\<newline>-------------------- Page Break --------------------\<newline>\<newline>PAGE TWO'',
       blob_type = ''text/plain'' \<rparr>"
proof -
  have sent: "map req_user (sent (snd (snd (translatePdfPages remote pages config s)))) =
     map req_user (sent s) @ filter (\<lambda>t. \<not> blank t) pages"
    by (simp add: translatePdfPages_sent comp_def)
  have stub: "blob_content (fst (translatePdfPages (stub_remote g) ps config s')) =
     join pageBreak (map (\<lambda>t. if blank t then t else g t) ps)" for g ps
    by (simp add: translatePdfPages_content translateBatch_stub_remote)
  have b1: "\<not> blank ''page one''" and b2: "\<not> blank ''page two''"
    by (simp_all add: blank_def trim_def isWhiteSpace_def)
  have up: "toUpperCaseAscii ''page one'' = ''PAGE ONE''" "toUpperCaseAscii ''page two'' = ''PAGE TWO''"
    by code_simp+
  have "blob_content (fst (translatePdfPages (stub_remote toUpperCaseAscii) [''page one'', ''page two''] config s')) =
      ''PAGE ONE'' @ pageBreak @ ''PAGE TWO''"
    using stub [of toUpperCaseAscii "[''page one'', ''page two'']"] b1 b2 up by simp
  then have ex: "fst (translatePdfPages (stub_remote toUpperCaseAscii) [''page one'', ''page two''] config s') =
     \<lparr> blob_content =
         ''PAGE ONE\<newline>\<newline>-------------------- Page Break --------------------\<newline>\<newline>PAGE TWO'',
       blob_type = ''text/plain'' \<rparr>"
    by (simp add: translatePdfPages_content pageBreak_text)
  show ?thesis
    using translatePdfPages_content [of remote pages config s] sent pageBreak_text stub [of f pages] ex
    by blast
qed

section \<open>Properties of the document parser\<close>

lemma split_char_not_Nil [simp]: "split_char c s \<noteq> []"
  by (induction s) (auto split: list.splits)

lemma split_char_no_sep: "c \<notin> set s \<Longrightarrow> split_char c s = [s]"
  by (induction s) auto

lemma split_char_sep: "c \<in> set s \<Longrightarrow> \<exists>y z zs. split_char c s = y # z # zs"
proof (induction s)
  case Nil
  then show ?case by simp
next
  case (Cons x xs)
  show ?case
  proof (cases "x = c")
    case True
    then show ?thesis by (cases "split_char c xs") auto
  next
    case False
    then have "c \<in> set xs" using Cons.prems by simp
    then obtain y z zs where "split_char c xs = y # z # zs" using Cons.IH by blast
    then show ?thesis using False by simp
  qed
qed

lemma last_split_char:
  "last (split_char c s) = rev (takeWhile (\<lambda>x. x \<noteq> c) (rev s))"
proof (induction s)
  case Nil
  then show ?case by simp
next
  case (Cons x xs)
  show ?case
  proof (cases "x = c")
    case True
    then show ?thesis using Cons.IH by (simp add: takeWhile_append)
  next
    case False
    show ?thesis
    proof (cases "c \<in> set xs")
      case True
      then obtain y z zs where sp: "split_char c xs = y # z # zs" using split_char_sep by blast
      then show ?thesis using False True Cons.IH by (auto simp: takeWhile_append)
    next
      case no: False
      then show ?thesis using False by (simp add: split_char_no_sep takeWhile_append)
    qed
  qed
qed

lemma pop_split_char: "pop (split_char CHR ''.'' name) = Some (after_last_dot name)"
  by (simp add: pop_def after_last_dot_def last_split_char)

lemma getFileType_after_last_dot:
  "getFileType name =
     (let ext = toLowerCase (after_last_dot name)
      in if ext = ''docx'' then Docx else if ext = ''pdf'' then Pdf
         else if ext = ''md'' \<or> ext = ''markdown'' then Md else Txt)"
  by (simp add: getFileType_def pop_split_char Let_def)

lemma parseDocx_Inl:
  "parseDocx loadAsync buffer = Inl err \<longleftrightarrow>
     loadAsync buffer = Inl err \<or>
     (\<exists>archive. loadAsync buffer = Inr archive \<and>
        (archive ''word/document.xml'' = None \<or> archive ''word/document.xml'' = Some []) \<and>
        err = ''Invalid DOCX file'')"
  by (auto simp: parseDocx_def split: sum.splits option.splits)

lemma parsePdf_Inl:
  "parsePdf getDocument buffer = Inl err \<longleftrightarrow> getDocument buffer = Inl err"
  by (auto simp: parsePdf_def split: sum.splits prod.splits)

text \<open>
  C8 (as amended). Parsing never rejects a file for its format: when the lower-cased
  text after the last dot of the name (the whole name when it has no dot) is none of
  docx, pdf, md, markdown, the result is a plain-text document whose content is the whole
  text of the file. Parsing fails exactly in these cases: for a docx name, when unpacking
  the archive fails (the library's error is passed on) or when the part
  \<open>word/document.xml\<close> is missing or empty (\<open>Invalid DOCX file\<close>); for a pdf name, when
  reading the PDF fails.
\<close>

theorem parseDocument_rejections:
  "(toLowerCase (after_last_dot (file_name file)) \<notin> {''docx'', ''pdf'', ''md'', ''markdown''} \<longrightarrow>
      parseDocument loadAsync getDocument file =
        Inr \<lparr> pd_type = Txt, pd_content = file_text file, pd_originalData = Inr (file_text file),
              pd_structure = None, pd_pages = None \<rparr>) \<and>
   (parseDocument loadAsync getDocument file = Inl err \<longleftrightarrow>
      (toLowerCase (after_last_dot (file_name file)) = ''docx'' \<and>
         (loadAsync (file_arrayBuffer file) = Inl err \<or>
          (\<exists>archive. loadAsync (file_arrayBuffer file) = Inr archive \<and>
             (archive ''word/document.xml'' = None \<or> archive ''word/document.xml'' = Some []) \<and>
             err = ''Invalid DOCX file''))) \<or>
      (toLowerCase (after_last_dot (file_name file)) = ''pdf'' \<and>
         getDocument (file_arrayBuffer file) = Inl err))"
proof -
  let ?ext = "toLowerCase (after_last_dot (file_name file))"
  have ty: "getFileType (file_name file) =
     (if ?ext = ''docx'' then Docx else if ?ext = ''pdf'' then Pdf
      else if ?ext = ''md'' \<or> ?ext = ''markdown'' then Md else Txt)"
    by (simp add: getFileType_after_last_dot Let_def)
  show ?thesis
  proof (cases "?ext = ''docx''")
    case True
    then have "parseDocument loadAsync getDocument file = parseDocx loadAsync (file_arrayBuffer file)"
      using ty by (simp add: parseDocument_def)
    then show ?thesis using True by (simp add: parseDocx_Inl)
  next
    case nd: False
    show ?thesis
    proof (cases "?ext = ''pdf''")
      case True
      then have "parseDocument loadAsync getDocument file = parsePdf getDocument (file_arrayBuffer file)"
        using ty by (simp add: parseDocument_def)
      then show ?thesis using True by (simp add: parsePdf_Inl)
    next
      case False
      then show ?thesis using nd ty by (simp add: parseDocument_def Let_def)
    qed
  qed
qed

text \<open>
  C8 as first stated, with a missing \<open>word/document.xml\<close> as the only rejection,
  fails: an archive that has the part, with empty content, is rejected too.
\<close>

theorem parseDocument_rejects_empty_body:
  "sample_archive_empty_body ''word/document.xml'' = Some [] \<and>
   parseDocument (stub_loadAsync sample_archive_empty_body) stub_getDocument (sample_file ''a.docx'')
     = Inl ''Invalid DOCX file''"
  by (simp add: sample_archive_empty_body_def parseDocument_def getFileType_def split_char.simps
      pop_def toLowerCase_def toLowerCaseChar_def parseDocx_def stub_loadAsync_def sample_file_def)

theorem parseDocument_rejections_witness:
  "parseDocument (stub_loadAsync sample_archive_empty_body) stub_getDocument (sample_file ''notes.log'')
     = Inr \<lparr> pd_type = Txt, pd_content = ''some text'', pd_originalData = Inr ''some text'',
            pd_structure = None, pd_pages = None \<rparr>"
proof -
  have "toLowerCase (after_last_dot (file_name (sample_file ''notes.log'')))
          \<notin> {''docx'', ''pdf'', ''md'', ''markdown''}"
    by (simp add: sample_file_def after_last_dot_def toLowerCase_def toLowerCaseChar_def)
  then show ?thesis
    using parseDocument_rejections [of "sample_file ''notes.log''"
        "stub_loadAsync sample_archive_empty_body" stub_getDocument "[]", THEN conjunct1]
    by (simp add: sample_file_def)
qed

section \<open>Properties of the download name\<close>

text \<open>
  C9. The claim is that a PDF named \<open>report.pdf\<close> is offered as \<open>translated_report.txt\<close>.
  The code replaces the extension by \<open>txt\<close> before it strips the extension from the
  name, so nothing is stripped and the name offered is \<open>translated_report.pdf.txt\<close>;
  a Markdown file keeps its name and extension as claimed.
\<close>

theorem downloadFile_pdf_keeps_pdf_in_name:
  "map_option snd (downloadFile sample_pdf_item) = Some ''translated_report.pdf.txt'' \<and>
   map_option snd (downloadFile sample_md_item) = Some ''translated_notes.md''"
  by code_simp

section \<open>Properties of the DOCX reassembler\<close>

subsection \<open>The tree and its nodes\<close>

lemma node_at_snoc:
  "node_at t (p @ [i]) =
     (case node_at t p of
        Some (Element name children) \<Rightarrow> if i < length children then Some (children ! i) else None
      | _ \<Rightarrow> None)"
proof (induction p arbitrary: t)
  case Nil
  then show ?case by (cases t) auto
next
  case (Cons j p)
  then show ?case by (cases t) auto
qed

lemma elements_in_none:
  assumes "\<And>c p. c \<in> set cs \<Longrightarrow> elements w tag p c = []"
  shows "elements_in w tag p i cs = []"
  using assms by (induction cs arbitrary: i) auto

lemma elements_none: "\<not> has_element tag u \<Longrightarrow> elements w tag p u = []"
proof (induction u arbitrary: p)
  case (Text s)
  then show ?case by simp
next
  case (Element name children)
  then have "elements_in w tag p 0 children = []"
    by (intro elements_in_none) auto
  then show ?case using Element.prems by (simp split: option.splits)
qed

lemma elements_in_none':
  "\<forall>c\<in>set cs. \<not> has_element tag c \<Longrightarrow> elements_in w tag p i cs = []"
  by (intro elements_in_none) (simp add: elements_none)



lemma children_at_Cons:
  "children_at t p i (c # cs) \<Longrightarrow> node_at t (p @ [i]) = Some c \<and> children_at t p (Suc i) cs"
  unfolding children_at_def
  by (metis add.right_neutral add_Suc_shift length_Cons not_less_eq nth_Cons_0 nth_Cons_Suc zero_less_Suc)

lemma children_at_node:
  "node_at t p = Some (Element name cs) \<Longrightarrow> children_at t p 0 cs"
  by (simp add: children_at_def node_at_snoc)

lemma elements_in_eq:
  assumes "\<And>c p'. c \<in> set cs \<Longrightarrow> node_at t p' = Some c \<Longrightarrow> elements w tag p' c = elements w' tag p' c"
    and "children_at t p i cs"
  shows "elements_in w tag p i cs = elements_in w' tag p i cs"
  using assms
proof (induction cs arbitrary: i)
  case Nil
  then show ?case by simp
next
  case (Cons c cs)
  have c: "node_at t (p @ [i]) = Some c" and rest: "children_at t p (Suc i) cs"
    using children_at_Cons [OF Cons.prems(2)] by auto
  have "elements w tag (p @ [i]) c = elements w' tag (p @ [i]) c"
    using Cons.prems(1) c by simp
  moreover have "elements_in w tag p (Suc i) cs = elements_in w' tag p (Suc i) cs"
    using Cons.IH rest Cons.prems(1) by simp
  ultimately show ?case by simp
qed

lemma elements_written_inert:
  assumes "\<And>q. w q \<noteq> None \<Longrightarrow> no_text_below t q"
  shows "node_at t p = Some u \<Longrightarrow> elements w ''w:t'' p u = elements Map.empty ''w:t'' p u"
proof (induction u arbitrary: p)
  case (Text s)
  then show ?case by simp
next
  case (Element name children)
  show ?case
  proof (cases "w p")
    case None
    have "elements_in w ''w:t'' p 0 children = elements_in Map.empty ''w:t'' p 0 children"
      using Element.IH children_at_node [OF Element.prems]
      by (intro elements_in_eq [where t = t]) auto
    then show ?thesis using None by simp
  next
    case (Some s)
    then have "no_text_below t p" using assms by simp
    then have "\<forall>c\<in>set children. \<not> has_element ''w:t'' c"
      using Element.prems by (simp add: no_text_below_def)
    then have "elements_in Map.empty ''w:t'' p 0 children = []"
      by (rule elements_in_none')
    then show ?thesis using Some by simp
  qed
qed

lemma getElementsByTagName_written_inert:
  assumes "\<And>q. written d q \<noteq> None \<Longrightarrow> no_text_below (root d) q"
  shows "getElementsByTagName d p ''w:t'' = getElementsByTagName (d\<lparr>written := Map.empty\<rparr>) p ''w:t''"
proof (cases "node_at (root d) p")
  case None
  then show ?thesis by (simp add: getElementsByTagName_def)
next
  case (Some u)
  show ?thesis
  proof (cases u)
    case (Text s)
    then show ?thesis using Some by (simp add: getElementsByTagName_def)
  next
    case (Element name children)
    show ?thesis
    proof (cases "written d p")
      case None
      have "elements_in (written d) ''w:t'' p 0 children = elements_in Map.empty ''w:t'' p 0 children"
        using elements_written_inert [of "written d" "root d"] assms
          children_at_node [of "root d" p name children] Some Element
        by (intro elements_in_eq [where t = "root d"]) auto
      then show ?thesis using Some Element None by (simp add: getElementsByTagName_def)
    next
      case w: (Some s)
      then have "no_text_below (root d) p" using assms by simp
      then have "\<forall>c\<in>set children. \<not> has_element ''w:t'' c"
        using Some Element by (simp add: no_text_below_def)
      then have "elements_in Map.empty ''w:t'' p 0 children = []"
        by (rule elements_in_none')
      then show ?thesis using Some Element w by (simp add: getElementsByTagName_def)
    qed
  qed
qed

lemma elements_in_member:
  assumes "\<And>c p'. c \<in> set cs \<Longrightarrow> node_at t p' = Some c \<Longrightarrow> q \<in> set (elements w tag p' c)
              \<Longrightarrow> \<exists>cs'. node_at t q = Some (Element tag cs')"
    and "children_at t p i cs" and "q \<in> set (elements_in w tag p i cs)"
  shows "\<exists>cs'. node_at t q = Some (Element tag cs')"
  using assms
proof (induction cs arbitrary: i)
  case Nil
  then show ?case by simp
next
  case (Cons c cs)
  have c: "node_at t (p @ [i]) = Some c" and rest: "children_at t p (Suc i) cs"
    using children_at_Cons [OF Cons.prems(2)] by auto
  from Cons.prems(3) consider "q \<in> set (elements w tag (p @ [i]) c)"
    | "q \<in> set (elements_in w tag p (Suc i) cs)" by auto
  then show ?case
  proof cases
    case 1
    then show ?thesis using Cons.prems(1) [of c "p @ [i]"] c by simp
  next
    case 2
    have "\<And>c' p'. c' \<in> set cs \<Longrightarrow> node_at t p' = Some c' \<Longrightarrow> q \<in> set (elements w tag p' c')
              \<Longrightarrow> \<exists>cs'. node_at t q = Some (Element tag cs')"
      using Cons.prems(1) by (meson list.set_intros(2))
    then show ?thesis using Cons.IH [of "Suc i"] rest 2 by blast
  qed
qed

lemma elements_member:
  "node_at t p = Some u \<Longrightarrow> q \<in> set (elements w tag p u)
     \<Longrightarrow> \<exists>cs'. node_at t q = Some (Element tag cs')"
proof (induction u arbitrary: p)
  case (Text s)
  then show ?case by simp
next
  case (Element name children)
  show ?case
  proof (cases "name = tag \<and> q = p")
    case True
    then show ?thesis using Element.prems(1) by simp
  next
    case False
    have mem: "q \<in> set ((if name = tag then [p] else []) @
        (case w p of Some s \<Rightarrow> [] | None \<Rightarrow> elements_in w tag p 0 children))"
      using Element.prems(2) by simp
    have qin: "q \<in> set (elements_in w tag p 0 children)"
    proof (cases "w p")
      case None
      then show ?thesis using mem False by (cases "name = tag") auto
    next
      case (Some s)
      then show ?thesis using mem False by (cases "name = tag") auto
    qed
    have ih: "\<And>c p'. c \<in> set children \<Longrightarrow> node_at t p' = Some c
            \<Longrightarrow> q \<in> set (elements w tag p' c)
            \<Longrightarrow> \<exists>cs'. node_at t q = Some (Element tag cs')"
      using Element.IH by blast
    show ?thesis
      by (rule elements_in_member [where cs = children and w = w and p = p and i = 0])
         (use ih children_at_node [OF Element.prems(1)] qin in blast)+
  qed
qed

lemma getElementsByTagName_member:
  assumes "q \<in> set (getElementsByTagName d p tag)"
  shows "\<exists>cs'. node_at (root d) q = Some (Element tag cs')"
proof (cases "node_at (root d) p")
  case None
  then show ?thesis using assms by (simp add: getElementsByTagName_def)
next
  case (Some u)
  show ?thesis
  proof (cases u)
    case (Text s)
    then show ?thesis using assms Some by (simp add: getElementsByTagName_def)
  next
    case (Element name children)
    then have n: "node_at (root d) p = Some (Element name children)" using Some by simp
    have q: "q \<in> set (elements_in (written d) tag p 0 children)"
      using assms n by (cases "written d p") (simp_all add: getElementsByTagName_def)
    have "\<And>c p'. c \<in> set children \<Longrightarrow> node_at (root d) p' = Some c
            \<Longrightarrow> q \<in> set (elements (written d) tag p' c)
            \<Longrightarrow> \<exists>cs'. node_at (root d) q = Some (Element tag cs')"
      by (rule elements_member)
    then show ?thesis
      by (rule elements_in_member [where cs = children and w = "written d" and p = p and i = 0])
         (use children_at_node [OF n] q in blast)+
  qed
qed

lemma text_leaves_node_at:
  "text_leaves t \<Longrightarrow> node_at t q = Some u \<Longrightarrow> text_leaves u"
proof (induction q arbitrary: t)
  case Nil
  then show ?case by simp
next
  case (Cons i q)
  show ?case
  proof (cases t)
    case (Text s)
    then show ?thesis using Cons.prems by simp
  next
    case (Element name children)
    then have i: "i < length children" and n: "node_at (children ! i) q = Some u"
      using Cons.prems(2) by (auto split: if_splits)
    have "text_leaves (children ! i)" using Cons.prems(1) Element i by simp
    then show ?thesis using Cons.IH n by blast
  qed
qed

lemma text_leaves_no_text_below:
  assumes "text_leaves t" and "node_at t q = Some (Element ''w:t'' cs)"
  shows "no_text_below t q"
proof -
  have "text_leaves (Element ''w:t'' cs)" using assms by (rule text_leaves_node_at)
  then show ?thesis using assms(2) by (simp add: no_text_below_def)
qed

lemma visited_no_text_below:
  assumes "text_leaves (root d)" and "q \<in> set (getElementsByTagName d p ''w:t'')"
  shows "no_text_below (root d) q"
  using getElementsByTagName_member [OF assms(2)] text_leaves_no_text_below [OF assms(1)]
  by blast

subsection \<open>The first pass\<close>

lemma textContent_pending [simp]:
  "textContent (d\<lparr>pending := X\<rparr>) q = textContent d q"
  by (simp add: textContent_def split: option.splits)

lemma extractNodes_run:
  "extractNodes (d\<lparr>pending := pend\<rparr>) p i acc =
     (d\<lparr>pending := pend \<union> set (filter (\<lambda>q. 0 < length (trim (textContent d q)))
                                   (drop i (getElementsByTagName d p ''w:t'')))\<rparr>,
      acc @ map (textContent d)
              (filter (\<lambda>q. 0 < length (trim (textContent d q)))
                 (drop i (getElementsByTagName d p ''w:t''))))"
proof (induction "length (getElementsByTagName d p ''w:t'') - i" arbitrary: i pend acc)
  case 0
  then have "\<not> i < length (getElementsByTagName d p ''w:t'')" by simp
  then show ?case
    by (subst extractNodes.simps) simp
next
  case (Suc n)
  let ?nodes = "getElementsByTagName d p ''w:t''"
  let ?nb = "\<lambda>q. 0 < length (trim (textContent d q))"
  have i: "i < length ?nodes" using Suc.hyps(2) by simp
  have n: "n = length ?nodes - Suc i" using Suc.hyps(2) by simp
  have dr: "drop i ?nodes = ?nodes ! i # drop (Suc i) ?nodes"
    using i by (simp add: Cons_nth_drop_Suc)
  show ?case
  proof (cases "?nb (?nodes ! i)")
    case True
    have "extractNodes (d\<lparr>pending := pend\<rparr>) p i acc =
            extractNodes (d\<lparr>pending := insert (?nodes ! i) pend\<rparr>) p (Suc i)
              (acc @ [textContent d (?nodes ! i)])"
      using i True by (subst extractNodes.simps) (simp add: Let_def)
    then show ?thesis
      using Suc.hyps(1) [OF n, where pend = "insert (?nodes ! i) pend"
          and acc = "acc @ [textContent d (?nodes ! i)]"]
        True dr by simp
  next
    case False
    have "extractNodes (d\<lparr>pending := pend\<rparr>) p i acc =
            extractNodes (d\<lparr>pending := pend\<rparr>) p (Suc i) acc"
      using i False by (subst extractNodes.simps) (simp add: Let_def)
    then show ?thesis
      using Suc.hyps(1) [OF n, where pend = pend and acc = acc] False dr by simp
  qed
qed

lemma extractParagraphs_run:
  "extractParagraphs (d\<lparr>pending := pend\<rparr>) ps acc =
     (d\<lparr>pending := pend \<union> set (concat (map (\<lambda>p. filter (\<lambda>q. 0 < length (trim (textContent d q)))
                                   (getElementsByTagName d p ''w:t'')) ps))\<rparr>,
      acc @ map (textContent d)
              (concat (map (\<lambda>p. filter (\<lambda>q. 0 < length (trim (textContent d q)))
                                   (getElementsByTagName d p ''w:t'')) ps)))"
proof (induction ps arbitrary: pend acc)
  case Nil
  then show ?case by simp
next
  case (Cons p ps)
  show ?case
    by (simp add: extractNodes_run [where d = d and pend = pend and p = p and i = 0 and acc = acc] Cons.IH Un_assoc)
qed

lemma new_document_pending: "new_document t\<lparr>pending := {}\<rparr> = new_document t"
  by (simp add: new_document_def)

lemma first_pass:
  "extractParagraphs (new_document t) (document_getElementsByTagName (new_document t) ''w:p'') [] =
     (new_document t\<lparr>pending := set (marked_visits t)\<rparr>,
      map (textContent (new_document t)) (marked_visits t))"
  using extractParagraphs_run [where d = "new_document t" and pend = "{}"
      and ps = "document_getElementsByTagName (new_document t) ''w:p''" and acc = "[]"]
  by (simp add: new_document_pending marked_visits_def Let_def)

subsection \<open>The write-back pass\<close>

lemma write_positional_append:
  "write_positional w tr k (xs @ ys) =
     write_positional (write_positional w tr k xs) tr (k + length xs) ys"
  by (induction xs arbitrary: w k) simp_all

lemma write_positional_inert:
  assumes "\<And>q. q \<in> set qs \<Longrightarrow> no_text_below t q" and "\<And>q. w q \<noteq> None \<Longrightarrow> no_text_below t q"
    and "write_positional w tr k qs q \<noteq> None"
  shows "no_text_below t q"
  using assms
proof (induction qs arbitrary: w k)
  case Nil
  then show ?case by simp
next
  case (Cons a qs)
  let ?w = "if truthy_at tr k then w(a \<mapsto> tr ! k) else w"
  have "\<And>q. ?w q \<noteq> None \<Longrightarrow> no_text_below t q"
    using Cons.prems(1) [of a] Cons.prems(2) by (auto split: if_splits)
  moreover have "write_positional ?w tr (k + 1) qs q \<noteq> None"
    using Cons.prems(3) by simp
  moreover have "\<And>q. q \<in> set qs \<Longrightarrow> no_text_below t q"
    using Cons.prems(1) by simp
  ultimately show ?case using Cons.IH [of ?w "k + 1"] by blast
qed

lemma writeNodes_run:
  assumes leaves: "text_leaves (root d)"
  shows "(\<And>q. w q \<noteq> None \<Longrightarrow> no_text_below (root d) q) \<Longrightarrow>
     writeNodes (d\<lparr>written := w\<rparr>) p tr i k =
       (d\<lparr>written := write_positional w tr k
            (filter (\<lambda>q. q \<in> pending d)
               (drop i (getElementsByTagName (d\<lparr>written := Map.empty\<rparr>) p ''w:t'')))\<rparr>,
        k + length (filter (\<lambda>q. q \<in> pending d)
               (drop i (getElementsByTagName (d\<lparr>written := Map.empty\<rparr>) p ''w:t''))))"
proof (induction "length (getElementsByTagName (d\<lparr>written := Map.empty\<rparr>) p ''w:t'') - i"
    arbitrary: i k w)
  case 0
  let ?nodes = "getElementsByTagName (d\<lparr>written := Map.empty\<rparr>) p ''w:t''"
  have live: "getElementsByTagName (d\<lparr>written := w\<rparr>) p ''w:t'' = ?nodes"
    using getElementsByTagName_written_inert [of "d\<lparr>written := w\<rparr>" p] "0.prems" by simp
  have "\<not> i < length ?nodes" using "0.hyps" by simp
  then show ?case
    by (subst writeNodes.simps) (simp add: live)
next
  case (Suc n)
  let ?nodes = "getElementsByTagName (d\<lparr>written := Map.empty\<rparr>) p ''w:t''"
  have live: "getElementsByTagName (d\<lparr>written := w\<rparr>) p ''w:t'' = ?nodes"
    using getElementsByTagName_written_inert [of "d\<lparr>written := w\<rparr>" p] Suc.prems by simp
  have i: "i < length ?nodes" using Suc.hyps(2) by simp
  have n: "n = length ?nodes - Suc i" using Suc.hyps(2) by simp
  have dr: "drop i ?nodes = ?nodes ! i # drop (Suc i) ?nodes"
    using i by (simp add: Cons_nth_drop_Suc)
  have "?nodes ! i \<in> set ?nodes" using i by simp
  then have inert_node: "no_text_below (root d) (?nodes ! i)"
    using visited_no_text_below [of "d\<lparr>written := Map.empty\<rparr>" "?nodes ! i" p] leaves by simp
  show ?case
  proof (cases "?nodes ! i \<in> pending d")
    case True
    let ?w = "if truthy_at tr k then w(?nodes ! i \<mapsto> tr ! k) else w"
    have step: "writeNodes (d\<lparr>written := w\<rparr>) p tr i k =
                  writeNodes (d\<lparr>written := ?w\<rparr>) p tr (Suc i) (Suc k)"
      using i True by (subst writeNodes.simps) (simp add: live Let_def setTextContent_def)
    have "\<And>q. ?w q \<noteq> None \<Longrightarrow> no_text_below (root d) q"
      using Suc.prems inert_node by (auto split: if_splits)
    then show ?thesis
      using Suc.hyps(1) [OF n, of ?w "Suc k"] step True dr by simp
  next
    case False
    have step: "writeNodes (d\<lparr>written := w\<rparr>) p tr i k =
                  writeNodes (d\<lparr>written := w\<rparr>) p tr (Suc i) k"
      using i False by (subst writeNodes.simps) (simp add: live Let_def)
    show ?thesis
      using Suc.hyps(1) [OF n, of w k] Suc.prems step False dr by simp
  qed
qed

lemma writeParagraphs_run:
  assumes leaves: "text_leaves (root d)"
  shows "(\<And>q. w q \<noteq> None \<Longrightarrow> no_text_below (root d) q) \<Longrightarrow>
     writeParagraphs (d\<lparr>written := w\<rparr>) ps tr k =
       (d\<lparr>written := write_positional w tr k
            (concat (map (\<lambda>p. filter (\<lambda>q. q \<in> pending d)
               (getElementsByTagName (d\<lparr>written := Map.empty\<rparr>) p ''w:t'')) ps))\<rparr>,
        k + length (concat (map (\<lambda>p. filter (\<lambda>q. q \<in> pending d)
               (getElementsByTagName (d\<lparr>written := Map.empty\<rparr>) p ''w:t'')) ps)))"
proof (induction ps arbitrary: w k)
  case Nil
  then show ?case by simp
next
  case (Cons p ps)
  let ?vis = "filter (\<lambda>q. q \<in> pending d) (getElementsByTagName (d\<lparr>written := Map.empty\<rparr>) p ''w:t'')"
  let ?w = "write_positional w tr k ?vis"
  have first: "writeNodes (d\<lparr>written := w\<rparr>) p tr 0 k = (d\<lparr>written := ?w\<rparr>, k + length ?vis)"
    using writeNodes_run [OF leaves, of w p tr 0 k] Cons.prems by simp
  have "\<And>q. q \<in> set ?vis \<Longrightarrow> no_text_below (root d) q"
    using visited_no_text_below [of "d\<lparr>written := Map.empty\<rparr>" _ p] leaves by simp
  then have "\<And>q. ?w q \<noteq> None \<Longrightarrow> no_text_below (root d) q"
    using write_positional_inert [of ?vis "root d" w tr k] Cons.prems by blast
  then have "writeParagraphs (d\<lparr>written := ?w\<rparr>) ps tr (k + length ?vis) =
       (d\<lparr>written := write_positional ?w tr (k + length ?vis)
            (concat (map (\<lambda>p. filter (\<lambda>q. q \<in> pending d)
               (getElementsByTagName (d\<lparr>written := Map.empty\<rparr>) p ''w:t'')) ps))\<rparr>,
        (k + length ?vis) + length (concat (map (\<lambda>p. filter (\<lambda>q. q \<in> pending d)
               (getElementsByTagName (d\<lparr>written := Map.empty\<rparr>) p ''w:t'')) ps)))"
    by (rule Cons.IH)
  then show ?case using first by (simp add: write_positional_append)
qed

lemma marked_filter:
  assumes "p \<in> set (document_getElementsByTagName (new_document t) ''w:p'')"
  shows "filter (\<lambda>q. q \<in> set (marked_visits t)) (getElementsByTagName (new_document t) p ''w:t'') =
         filter (\<lambda>q. 0 < length (trim (textContent (new_document t) q)))
           (getElementsByTagName (new_document t) p ''w:t'')"
  using assms by (intro filter_cong) (auto simp: marked_visits_def Let_def)

lemma second_pass:
  assumes "text_leaves t"
  shows "writeParagraphs (new_document t\<lparr>pending := set (marked_visits t)\<rparr>)
           (document_getElementsByTagName (new_document t) ''w:p'') tr 0 =
         (new_document t\<lparr>pending := set (marked_visits t),
                          written := write_positional Map.empty tr 0 (marked_visits t)\<rparr>,
          length (marked_visits t))"
proof -
  let ?d = "new_document t\<lparr>pending := set (marked_visits t)\<rparr>"
  let ?ps = "document_getElementsByTagName (new_document t) ''w:p''"
  have e: "?d\<lparr>written := Map.empty\<rparr> = ?d" by (simp add: new_document_def)
  have r: "root ?d = t" by (simp add: new_document_def)
  have vis: "concat (map (\<lambda>p. filter (\<lambda>q. q \<in> pending ?d)
               (getElementsByTagName (?d\<lparr>written := Map.empty\<rparr>) p ''w:t'')) ?ps) = marked_visits t"
  proof -
    have "map (\<lambda>p. filter (\<lambda>q. q \<in> pending ?d)
               (getElementsByTagName (?d\<lparr>written := Map.empty\<rparr>) p ''w:t'')) ?ps =
          map (\<lambda>p. filter (\<lambda>q. 0 < length (trim (textContent (new_document t) q)))
               (getElementsByTagName (new_document t) p ''w:t'')) ?ps"
      by (rule map_cong) (simp_all add: e marked_filter)
    then have "concat (map (\<lambda>p. filter (\<lambda>q. q \<in> pending ?d)
               (getElementsByTagName (?d\<lparr>written := Map.empty\<rparr>) p ''w:t'')) ?ps) =
          concat (map (\<lambda>p. filter (\<lambda>q. 0 < length (trim (textContent (new_document t) q)))
               (getElementsByTagName (new_document t) p ''w:t'')) ?ps)"
      by (rule arg_cong)
    also have "\<dots> = marked_visits t" by (simp add: marked_visits_def Let_def)
    finally show ?thesis .
  qed
  have "writeParagraphs (?d\<lparr>written := Map.empty\<rparr>) ?ps tr 0 =
       (?d\<lparr>written := write_positional Map.empty tr 0
            (concat (map (\<lambda>p. filter (\<lambda>q. q \<in> pending ?d)
               (getElementsByTagName (?d\<lparr>written := Map.empty\<rparr>) p ''w:t'')) ?ps))\<rparr>,
        0 + length (concat (map (\<lambda>p. filter (\<lambda>q. q \<in> pending ?d)
               (getElementsByTagName (?d\<lparr>written := Map.empty\<rparr>) p ''w:t'')) ?ps)))"
    using assms r by (intro writeParagraphs_run) simp_all
  then show ?thesis unfolding vis by (simp add: e)
qed

lemma write_positional_other:
  "q \<notin> set qs \<Longrightarrow> write_positional w tr k qs q = w q"
  by (induction qs arbitrary: w k) auto

lemma write_positional_nth:
  "distinct qs \<Longrightarrow> j < length qs \<Longrightarrow>
     write_positional w tr k qs (qs ! j) =
       (if truthy_at tr (k + j) then Some (tr ! (k + j)) else w (qs ! j))"
proof (induction qs arbitrary: w k j)
  case Nil
  then show ?case by simp
next
  case (Cons a qs)
  show ?case
  proof (cases j)
    case 0
    then show ?thesis using Cons.prems by (simp add: write_positional_other)
  next
    case (Suc j')
    then have "qs ! j' \<noteq> a" using Cons.prems by auto
    then show ?thesis using Cons.IH [of j' _ "k + 1"] Cons.prems Suc by simp
  qed
qed

lemma translateDocx_run:
  assumes "archive ''word/document.xml'' = Some docXml" and "docXml \<noteq> []"
    and "marked_visits (parseFromString docXml) \<noteq> []"
    and "text_leaves (parseFromString docXml)"
  shows "fst (translateDocx parseFromString serializeToString remote archive config s) =
     Inr (archive(''word/document.xml'' \<mapsto>
            serializeToString
              (current
                 (write_positional Map.empty
                    (fst (translateBatch remote
                            (map (textContent (new_document (parseFromString docXml)))
                                 (marked_visits (parseFromString docXml)))
                            config s))
                    0 (marked_visits (parseFromString docXml)))
                 [] (parseFromString docXml))))"
proof -
  let ?t = "parseFromString docXml"
  let ?raw = "map (textContent (new_document ?t)) (marked_visits ?t)"
  obtain tr evs s' where run: "translateBatch remote ?raw config s = (tr, evs, s')"
    by (cases "translateBatch remote ?raw config s") auto
  have ser: "serialized (new_document ?t\<lparr>pending := set (marked_visits ?t),
                 written := write_positional Map.empty tr 0 (marked_visits ?t)\<rparr>) =
             current (write_positional Map.empty tr 0 (marked_visits ?t)) [] ?t"
    by (simp add: serialized_def new_document_def)
  show ?thesis
    using assms run ser
    by (simp add: translateDocx_def first_pass second_pass Let_def)
qed

lemma sample_docx_leaves: "text_leaves sample_docx_xml"
  by code_simp

lemma sample_docx_visits: "marked_visits sample_docx_xml = [[0, 0, 0, 0], [0, 1, 0, 0]]"
  by code_simp

lemma writeNodes_all_falsy:
  assumes "\<And>j. k \<le> j \<Longrightarrow> \<not> truthy_at tr j"
  shows "writeNodes d p tr i k =
     (d, k + length (filter (\<lambda>q. q \<in> pending d) (drop i (getElementsByTagName d p ''w:t''))))"
  using assms
proof (induction "length (getElementsByTagName d p ''w:t'') - i" arbitrary: i k)
  case 0
  then have "\<not> i < length (getElementsByTagName d p ''w:t'')" by simp
  then show ?case by (subst writeNodes.simps) simp
next
  case (Suc n)
  let ?nodes = "getElementsByTagName d p ''w:t''"
  have i: "i < length ?nodes" using Suc.hyps(2) by simp
  have n: "n = length ?nodes - Suc i" using Suc.hyps(2) by simp
  have dr: "drop i ?nodes = ?nodes ! i # drop (Suc i) ?nodes"
    using i by (simp add: Cons_nth_drop_Suc)
  have nk: "\<not> truthy_at tr k" using Suc.prems by simp
  show ?case
  proof (cases "?nodes ! i \<in> pending d")
    case True
    have "writeNodes d p tr i k = writeNodes d p tr (Suc i) (Suc k)"
      using i True nk by (subst writeNodes.simps) (simp add: Let_def)
    moreover have "\<And>j. Suc k \<le> j \<Longrightarrow> \<not> truthy_at tr j" using Suc.prems by simp
    ultimately show ?thesis using Suc.hyps(1) [OF n, of "Suc k"] True dr by simp
  next
    case False
    have "writeNodes d p tr i k = writeNodes d p tr (Suc i) k"
      using i False by (subst writeNodes.simps) (simp add: Let_def)
    then show ?thesis using Suc.hyps(1) [OF n, of k] Suc.prems False dr by simp
  qed
qed

lemma writeParagraphs_all_falsy:
  assumes "\<And>j. k \<le> j \<Longrightarrow> \<not> truthy_at tr j"
  shows "writeParagraphs d ps tr k =
     (d, k + length (concat (map (\<lambda>p. filter (\<lambda>q. q \<in> pending d)
                                       (getElementsByTagName d p ''w:t'')) ps)))"
  using assms
proof (induction ps arbitrary: k)
  case Nil
  then show ?case by simp
next
  case (Cons p ps)
  let ?m = "length (filter (\<lambda>q. q \<in> pending d) (getElementsByTagName d p ''w:t''))"
  have "writeNodes d p tr 0 k = (d, k + ?m)"
    using writeNodes_all_falsy [of k tr d p 0] Cons.prems by simp
  moreover have "\<And>j. k + ?m \<le> j \<Longrightarrow> \<not> truthy_at tr j" using Cons.prems by simp
  ultimately show ?case using Cons.IH [of "k + ?m"] by simp
qed

lemma read_stream_silent:
  "\<forall>c\<in>set ds. js_or c [] = [] \<Longrightarrow> read_stream ds result calls = (result, calls)"
  by (induction ds arbitrary: result calls) simp_all

lemma translateText_silent:
  assumes "\<not> blank text" and "remote (world s) (make_request config text) = (resp, w')"
    and "failure resp = None" and "\<forall>c\<in>set (deltas resp). js_or c [] = []"
  shows "fst (translateText remote text config s) = Inr []"
  using assms by (simp add: translateText_def blank_def read_stream_silent)

lemma sample_docx_first_pass:
  "fst (extractParagraphs (new_document sample_docx_xml) (sample_paragraphs sample_docx_xml) []) =
     new_document sample_docx_xml\<lparr>pending := {[0, 0, 0, 0], [0, 1, 0, 0]}\<rparr>"
  using first_pass [of sample_docx_xml] by (simp add: sample_paragraphs_def sample_docx_visits)

lemma sample_docx_text_nodes:
  "map (\<lambda>p. getElementsByTagName (new_document sample_docx_xml) p ''w:t'') (sample_paragraphs sample_docx_xml)
     = [[[0, 0, 0, 0], [0, 0, 1, 0]], [[0, 1, 0, 0]]]"
  by code_simp

lemma sample_docx_marked_count:
  "length (concat (map (\<lambda>p. filter (\<lambda>q. q \<in> {[0, 0, 0, 0], [0, 1, 0, 0]})
              (getElementsByTagName (new_document sample_docx_xml) p ''w:t''))
            (sample_paragraphs sample_docx_xml))) = 2"
proof -
  have "concat (map (\<lambda>p. filter (\<lambda>q. q \<in> {[0, 0, 0, 0], [0, 1, 0, 0]})
              (getElementsByTagName (new_document sample_docx_xml) p ''w:t''))
            (sample_paragraphs sample_docx_xml)) =
        concat (map (filter (\<lambda>q. q \<in> {[0, 0, 0, 0], [0, 1, 0, 0]}))
          (map (\<lambda>p. getElementsByTagName (new_document sample_docx_xml) p ''w:t'') (sample_paragraphs sample_docx_xml)))"
    by (simp add: comp_def)
  then show ?thesis unfolding sample_docx_text_nodes by simp
qed

lemma text_in_eq:
  assumes "\<And>c p'. c \<in> set cs \<Longrightarrow> node_at t p' = Some c \<Longrightarrow> text_under w p' c = text_under w' p' c"
    and "children_at t p i cs"
  shows "text_in w p i cs = text_in w' p i cs"
  using assms
proof (induction cs arbitrary: i)
  case Nil
  then show ?case by simp
next
  case (Cons c cs)
  have c: "node_at t (p @ [i]) = Some c" and rest: "children_at t p (Suc i) cs"
    using children_at_Cons [OF Cons.prems(2)] by auto
  have "text_under w (p @ [i]) c = text_under w' (p @ [i]) c"
    using Cons.prems(1) c by simp
  moreover have "text_in w p (Suc i) cs = text_in w' p (Suc i) cs"
    using Cons.IH rest Cons.prems(1) by simp
  ultimately show ?case by simp
qed

lemma text_under_unwritten:
  assumes keys: "\<And>k. w k \<noteq> None \<Longrightarrow> \<exists>cs. node_at t k = Some (Element tag cs)"
  shows "node_at t p = Some u \<Longrightarrow> \<not> has_element tag u \<Longrightarrow>
           text_under w p u = text_under Map.empty p u"
proof (induction u arbitrary: p)
  case (Text s)
  then show ?case by simp
next
  case (Element name children)
  have "name \<noteq> tag" using Element.prems(2) by simp
  then have none: "w p = None" using keys [of p] Element.prems(1) by (cases "w p") auto
  have "text_in w p 0 children = text_in Map.empty p 0 children"
  proof (rule text_in_eq [where t = t])
    show "children_at t p 0 children" using Element.prems(1) by (rule children_at_node)
  next
    fix c p' assume "c \<in> set children" and "node_at t p' = Some c"
    then show "text_under w p' c = text_under Map.empty p' c"
      using Element.IH Element.prems(2) by simp
  qed
  then show ?case using none by simp
qed

lemma textContent_after_writes:
  assumes keys: "\<And>k. w k \<noteq> None \<Longrightarrow> \<exists>cs. node_at t k = Some (Element ''w:t'' cs)"
    and q: "node_at t q = Some (Element ''w:t'' cs)" and leaf: "no_text_below t q"
  shows "textContent \<lparr> root = t, written = w, pending = pend \<rparr> q =
           (case w q of Some s \<Rightarrow> s | None \<Rightarrow> textContent (new_document t) q)"
proof (cases "w q")
  case (Some s)
  then show ?thesis using q by (simp add: textContent_def)
next
  case None
  have below: "\<forall>c\<in>set cs. \<not> has_element ''w:t'' c"
    using leaf q by (simp add: no_text_below_def)
  have "text_in w q 0 cs = text_in Map.empty q 0 cs"
  proof (rule text_in_eq [where t = t])
    show "children_at t q 0 cs" using q by (rule children_at_node)
  next
    fix c p' assume "c \<in> set cs" and "node_at t p' = Some c"
    then show "text_under w p' c = text_under Map.empty p' c"
      using text_under_unwritten [of w t "''w:t''" p' c] keys below by blast
  qed
  then show ?thesis using None q by (simp add: textContent_def new_document_def)
qed

lemma write_positional_keys:
  assumes "write_positional w tr k qs q \<noteq> None"
  shows "w q \<noteq> None \<or> q \<in> set qs"
  using assms
proof (induction qs arbitrary: w k)
  case Nil
  then show ?case by simp
next
  case (Cons a qs)
  then show ?case by (fastforce split: if_splits)
qed

lemma marked_visits_member:
  assumes "q \<in> set (marked_visits t)"
  shows "\<exists>cs. node_at t q = Some (Element ''w:t'' cs)"
proof -
  from assms obtain p where "q \<in> set (getElementsByTagName (new_document t) p ''w:t'')"
    by (auto simp: marked_visits_def Let_def)
  then show ?thesis
    using getElementsByTagName_member [of q "new_document t" p "''w:t''"]
    by (simp add: new_document_def)
qed

lemma written_back_text:
  assumes leaves: "text_leaves t" and dist: "distinct (marked_visits t)"
    and k: "k < length (marked_visits t)"
  shows "textContent
           (fst (writeParagraphs (new_document t\<lparr>pending := set (marked_visits t)\<rparr>)
                   (document_getElementsByTagName (new_document t) ''w:p'') tr 0))
           (marked_visits t ! k) =
         (if truthy_at tr k then tr ! k else textContent (new_document t) (marked_visits t ! k))"
proof -
  let ?mv = "marked_visits t"
  let ?w = "write_positional Map.empty tr 0 ?mv"
  have d2: "fst (writeParagraphs (new_document t\<lparr>pending := set ?mv\<rparr>)
                   (document_getElementsByTagName (new_document t) ''w:p'') tr 0) =
            \<lparr> root = t, written = ?w, pending = set ?mv \<rparr>"
    using second_pass [OF leaves, of tr] by (simp add: new_document_def)
  have keys: "\<And>q. ?w q \<noteq> None \<Longrightarrow> \<exists>cs. node_at t q = Some (Element ''w:t'' cs)"
    using write_positional_keys [of Map.empty tr 0 ?mv] marked_visits_member [of _ t] by fastforce
  have mem: "?mv ! k \<in> set ?mv" using k by simp
  then obtain cs where q: "node_at t (?mv ! k) = Some (Element ''w:t'' cs)"
    using marked_visits_member by blast
  have leaf: "no_text_below t (?mv ! k)"
    using text_leaves_no_text_below [OF leaves q] .
  have wk: "?w (?mv ! k) = (if truthy_at tr k then Some (tr ! k) else None)"
    using write_positional_nth [OF dist k, of Map.empty tr 0] by simp
  show ?thesis
    unfolding d2 using textContent_after_writes [of ?w t "?mv ! k" cs "set ?mv"] keys q leaf wk
    by simp
qed

subsection \<open>The two passes\<close>

text \<open>
  C4 (as amended). Let no \<open>w:t\<close> element of the parsed document contain another
  \<open>w:t\<close> element. Then the first pass marks exactly the nodes of \<open>marked_visits\<close> and
  extracts their texts in that order; the batch translator returns as many strings as
  were extracted; and the write-back pass visits the same marked nodes in the same order:
  it ends with \<open>tIndex\<close> equal to their number, and the document it leaves is the parsed
  one with the \<open>k\<close>-th translated string assigned to the \<open>k\<close>-th marked node (an empty
  string is not assigned). When no node is visited twice, each marked node holds the
  string at its own position. The archive returned by \<open>translateDocx\<close> holds the
  serialization of that document.
\<close>

theorem translateDocx_positional_alignment:
  assumes "text_leaves t"
  shows "extractParagraphs (new_document t) (document_getElementsByTagName (new_document t) ''w:p'') [] =
           (new_document t\<lparr>pending := set (marked_visits t)\<rparr>,
            map (textContent (new_document t)) (marked_visits t)) \<and>
         length (fst (translateBatch remote (map (textContent (new_document t)) (marked_visits t))
                        config s)) = length (marked_visits t) \<and>
         writeParagraphs (new_document t\<lparr>pending := set (marked_visits t)\<rparr>)
             (document_getElementsByTagName (new_document t) ''w:p'') translatedTexts 0 =
           (new_document t\<lparr>pending := set (marked_visits t),
                            written := write_positional Map.empty translatedTexts 0 (marked_visits t)\<rparr>,
            length (marked_visits t)) \<and>
         (distinct (marked_visits t) \<longrightarrow>
            (\<forall>k<length (marked_visits t).
               write_positional Map.empty translatedTexts 0 (marked_visits t) (marked_visits t ! k) =
                 (if truthy_at translatedTexts k then Some (translatedTexts ! k) else None))) \<and>
         (archive ''word/document.xml'' = Some docXml \<and> docXml \<noteq> [] \<and>
          parseFromString docXml = t \<and> marked_visits t \<noteq> [] \<longrightarrow>
            fst (translateDocx parseFromString serializeToString remote archive config s) =
              Inr (archive(''word/document.xml'' \<mapsto>
                     serializeToString
                       (current
                          (write_positional Map.empty
                             (fst (translateBatch remote
                                     (map (textContent (new_document t)) (marked_visits t)) config s))
                             0 (marked_visits t))
                          [] t))))"
proof (intro conjI)
  show "extractParagraphs (new_document t) (document_getElementsByTagName (new_document t) ''w:p'') [] =
           (new_document t\<lparr>pending := set (marked_visits t)\<rparr>,
            map (textContent (new_document t)) (marked_visits t))"
    by (rule first_pass)
  show "length (fst (translateBatch remote (map (textContent (new_document t)) (marked_visits t))
                        config s)) = length (marked_visits t)"
    by (simp add: translateBatch_def translateBatch_from_length)
  show "writeParagraphs (new_document t\<lparr>pending := set (marked_visits t)\<rparr>)
             (document_getElementsByTagName (new_document t) ''w:p'') translatedTexts 0 =
           (new_document t\<lparr>pending := set (marked_visits t),
                            written := write_positional Map.empty translatedTexts 0 (marked_visits t)\<rparr>,
            length (marked_visits t))"
    using assms by (rule second_pass)
  show "distinct (marked_visits t) \<longrightarrow>
            (\<forall>k<length (marked_visits t).
               write_positional Map.empty translatedTexts 0 (marked_visits t) (marked_visits t ! k) =
                 (if truthy_at translatedTexts k then Some (translatedTexts ! k) else None))"
    by (simp add: write_positional_nth)
  show "archive ''word/document.xml'' = Some docXml \<and> docXml \<noteq> [] \<and>
          parseFromString docXml = t \<and> marked_visits t \<noteq> [] \<longrightarrow>
            fst (translateDocx parseFromString serializeToString remote archive config s) =
              Inr (archive(''word/document.xml'' \<mapsto>
                     serializeToString
                       (current
                          (write_positional Map.empty
                             (fst (translateBatch remote
                                     (map (textContent (new_document t)) (marked_visits t)) config s))
                             0 (marked_visits t))
                          [] t)))"
    using assms translateDocx_run [of archive docXml parseFromString serializeToString remote config s]
    by auto
qed

theorem translateDocx_positional_alignment_witness:
  "snd (writeParagraphs (new_document sample_docx_xml\<lparr>pending := set (marked_visits sample_docx_xml)\<rparr>)
          (document_getElementsByTagName (new_document sample_docx_xml) ''w:p'')
          [''HELLO'', ''WORLD''] 0) = 2 \<and>
   write_positional Map.empty [''HELLO'', ''WORLD''] 0 (marked_visits sample_docx_xml) [0, 1, 0, 0]
     = Some ''WORLD''"
proof -
  note t = translateDocx_positional_alignment [OF sample_docx_leaves,
      where translatedTexts = "[''HELLO'', ''WORLD'']"]
  have a: "snd (writeParagraphs (new_document sample_docx_xml\<lparr>pending := set (marked_visits sample_docx_xml)\<rparr>)
          (document_getElementsByTagName (new_document sample_docx_xml) ''w:p'')
          [''HELLO'', ''WORLD''] 0) = 2"
    using t [THEN conjunct2, THEN conjunct2, THEN conjunct1] by (simp add: sample_docx_visits)
  have d: "distinct (marked_visits sample_docx_xml)" by (simp add: sample_docx_visits)
  have "\<forall>k<length (marked_visits sample_docx_xml).
               write_positional Map.empty [''HELLO'', ''WORLD''] 0 (marked_visits sample_docx_xml)
                 (marked_visits sample_docx_xml ! k) =
                 (if truthy_at [''HELLO'', ''WORLD''] k then Some ([''HELLO'', ''WORLD''] ! k) else None)"
    using t [THEN conjunct2, THEN conjunct2, THEN conjunct2, THEN conjunct1] d by blast
  then have "write_positional Map.empty [''HELLO'', ''WORLD''] 0 (marked_visits sample_docx_xml)
                 (marked_visits sample_docx_xml ! 1) =
                 (if truthy_at [''HELLO'', ''WORLD''] 1 then Some ([''HELLO'', ''WORLD''] ! 1) else None)"
    by (simp add: sample_docx_visits)
  then have b: "write_positional Map.empty [''HELLO'', ''WORLD''] 0 (marked_visits sample_docx_xml) [0, 1, 0, 0]
     = Some ''WORLD''"
    by (simp add: sample_docx_visits truthy_at_def)
  from a b show ?thesis by (rule conjI)
qed

text \<open>
  Without the condition C4 fails. In the sample the first \<open>w:t\<close> element contains
  a second one. The first pass extracts three texts. In the write-back pass the
  assignment to the outer element removes the inner one from the live collection, so the
  third marked node is visited second: it receives the second translated string, and
  \<open>tIndex\<close> ends at 2.
\<close>

theorem nested_text_nodes_misaligned:
  "marked_visits sample_nested_xml = [[0, 0, 0], [0, 0, 0, 1], [0, 0, 1]] \<and>
   sample_translations sample_nested_xml = [''ONE TWO'', ''TWO'', ''THREE''] \<and>
   textContent (fst (sample_written_back sample_nested_xml (sample_translations sample_nested_xml)))
     [0, 0, 1] = ''TWO'' \<and>
   snd (sample_written_back sample_nested_xml (sample_translations sample_nested_xml)) = 2"
  by code_simp

text \<open>
  C10 (as amended). Let no \<open>w:t\<close> element of the parsed document contain another
  \<open>w:t\<close> element, and let no text node be visited twice (no paragraph lies inside
  another). Then the write-back pass ends with \<open>tIndex\<close> equal to the number of marked
  nodes, every marked node whose translated string is empty (or missing) has the text it
  had before, and every other marked node has the string at its own position: the empty
  string is not written, and the index advances past it so that the nodes after it stay
  aligned with their own strings.

  The steps behind this hold for every document. At a marked node whose string is empty
  nothing is assigned: the loop goes on with the same document, the next node and
  \<open>tIndex + 1\<close>. At a marked node whose string is not empty the string is assigned and the
  loop goes on with \<open>tIndex + 1\<close> as well. When no string from \<open>tIndex\<close> on is non-empty,
  the whole pass leaves the document as it was and advances \<open>tIndex\<close> by the number of
  marked nodes it visits. An empty translation arises when the stream of the service ends
  without content: then \<open>translateText\<close> returns the empty string.
\<close>

theorem writeBack_skips_empty_translation:
  "(i < length (getElementsByTagName d p ''w:t'') \<and>
    getElementsByTagName d p ''w:t'' ! i \<in> pending d \<and>
    \<not> truthy_at translatedTexts tIndex \<longrightarrow>
      writeNodes d p translatedTexts i tIndex = writeNodes d p translatedTexts (i + 1) (tIndex + 1)) \<and>
   (i < length (getElementsByTagName d p ''w:t'') \<and>
    getElementsByTagName d p ''w:t'' ! i \<in> pending d \<and>
    truthy_at translatedTexts tIndex \<longrightarrow>
      writeNodes d p translatedTexts i tIndex =
        writeNodes (setTextContent d (getElementsByTagName d p ''w:t'' ! i) (translatedTexts ! tIndex))
          p translatedTexts (i + 1) (tIndex + 1)) \<and>
   ((\<forall>j\<ge>tIndex. \<not> truthy_at translatedTexts j) \<longrightarrow>
      writeParagraphs d ps translatedTexts tIndex =
        (d, tIndex + length (concat (map (\<lambda>p. filter (\<lambda>q. q \<in> pending d)
                                              (getElementsByTagName d p ''w:t'')) ps)))) \<and>
   (\<not> blank chunk \<and> remote (world s) (make_request config chunk) = (resp, w') \<and>
    failure resp = None \<and> (\<forall>c\<in>set (deltas resp). js_or c [] = []) \<longrightarrow>
      fst (translateText remote chunk config s) = Inr []) \<and>
   (text_leaves t \<and> distinct (marked_visits t) \<longrightarrow>
      snd (writeParagraphs (new_document t\<lparr>pending := set (marked_visits t)\<rparr>)
             (document_getElementsByTagName (new_document t) ''w:p'') translatedTexts 0) =
        length (marked_visits t) \<and>
      (\<forall>k<length (marked_visits t).
         textContent
           (fst (writeParagraphs (new_document t\<lparr>pending := set (marked_visits t)\<rparr>)
                   (document_getElementsByTagName (new_document t) ''w:p'') translatedTexts 0))
           (marked_visits t ! k) =
         (if truthy_at translatedTexts k then translatedTexts ! k
          else textContent (new_document t) (marked_visits t ! k))))"
proof (intro conjI impI allI)
  assume "i < length (getElementsByTagName d p ''w:t'') \<and>
    getElementsByTagName d p ''w:t'' ! i \<in> pending d \<and> \<not> truthy_at translatedTexts tIndex"
  then show "writeNodes d p translatedTexts i tIndex = writeNodes d p translatedTexts (i + 1) (tIndex + 1)"
    by (subst writeNodes.simps) (simp add: Let_def)
next
  assume "i < length (getElementsByTagName d p ''w:t'') \<and>
    getElementsByTagName d p ''w:t'' ! i \<in> pending d \<and> truthy_at translatedTexts tIndex"
  then show "writeNodes d p translatedTexts i tIndex =
        writeNodes (setTextContent d (getElementsByTagName d p ''w:t'' ! i) (translatedTexts ! tIndex))
          p translatedTexts (i + 1) (tIndex + 1)"
    by (subst writeNodes.simps) (simp add: Let_def)
next
  assume "\<forall>j\<ge>tIndex. \<not> truthy_at translatedTexts j"
  then show "writeParagraphs d ps translatedTexts tIndex =
        (d, tIndex + length (concat (map (\<lambda>p. filter (\<lambda>q. q \<in> pending d)
                                              (getElementsByTagName d p ''w:t'')) ps)))"
    by (intro writeParagraphs_all_falsy) simp
next
  assume a: "\<not> blank chunk \<and> remote (world s) (make_request config chunk) = (resp, w') \<and>
    failure resp = None \<and> (\<forall>c\<in>set (deltas resp). js_or c [] = [])"
  show "fst (translateText remote chunk config s) = Inr []"
    using a translateText_silent [of chunk remote s config resp w'] by simp
next
  assume "text_leaves t \<and> distinct (marked_visits t)"
  then show "snd (writeParagraphs (new_document t\<lparr>pending := set (marked_visits t)\<rparr>)
             (document_getElementsByTagName (new_document t) ''w:p'') translatedTexts 0) =
        length (marked_visits t)"
    using second_pass [of t translatedTexts] by simp
next
  fix k
  assume "text_leaves t \<and> distinct (marked_visits t)" and "k < length (marked_visits t)"
  then show "textContent
           (fst (writeParagraphs (new_document t\<lparr>pending := set (marked_visits t)\<rparr>)
                   (document_getElementsByTagName (new_document t) ''w:p'') translatedTexts 0))
           (marked_visits t ! k) =
         (if truthy_at translatedTexts k then translatedTexts ! k
          else textContent (new_document t) (marked_visits t ! k))"
    using written_back_text [of t k translatedTexts] by simp
qed

theorem writeBack_skips_empty_translation_witness:
  "sample_written_back sample_docx_xml [[], []] =
     (new_document sample_docx_xml\<lparr>pending := {[0, 0, 0, 0], [0, 1, 0, 0]}\<rparr>, 2) \<and>
   fst (translateText stub_remote_silent ''hello'' stub_config stub_io) = Inr [] \<and>
   snd (sample_written_back sample_docx_xml [[], ''WORLD'']) = 2 \<and>
   textContent (fst (sample_written_back sample_docx_xml [[], ''WORLD''])) [0, 0, 0, 0] = ''hello'' \<and>
   textContent (fst (sample_written_back sample_docx_xml [[], ''WORLD''])) [0, 1, 0, 0] = ''WORLD''"
proof -
  let ?d = "new_document sample_docx_xml\<lparr>pending := {[0, 0, 0, 0], [0, 1, 0, 0]}\<rparr>"
  have "\<not> truthy_at [[], []] j" for j
    by (simp add: truthy_at_def nth_Cons split: nat.splits)
  then have falsy: "\<forall>j\<ge>0. \<not> truthy_at [[], []] j" by simp
  note inst = writeBack_skips_empty_translation
    [where d = "?d" and translatedTexts = "[[], []]" and tIndex = 0
       and ps = "sample_paragraphs sample_docx_xml"
       and chunk = "''hello''" and remote = stub_remote_silent and s = stub_io
       and config = stub_config
       and resp = "\<lparr> deltas = [None, Some []], failure = None \<rparr>" and w' = 1]
  have "writeParagraphs ?d (sample_paragraphs sample_docx_xml) [[], []] 0 =
        (?d, 0 + length (concat (map (\<lambda>p. filter (\<lambda>q. q \<in> pending ?d)
              (getElementsByTagName ?d p ''w:t'')) (sample_paragraphs sample_docx_xml))))"
    by (rule inst [THEN conjunct2, THEN conjunct2, THEN conjunct1, THEN mp, OF falsy])
  then have a: "sample_written_back sample_docx_xml [[], []] = (?d, 2)"
    using sample_docx_marked_count by (simp add: sample_written_back_def sample_docx_first_pass)
  have pre: "\<not> blank ''hello'' \<and>
      stub_remote_silent (world stub_io) (make_request stub_config ''hello'') =
        (\<lparr> deltas = [None, Some []], failure = None \<rparr>, 1) \<and>
      failure \<lparr> deltas = [None, Some []], failure = None \<rparr> = None \<and>
      (\<forall>c\<in>set (deltas \<lparr> deltas = [None, Some []], failure = None \<rparr>). js_or c [] = [])"
    by (simp add: blank_def trim_def isWhiteSpace_def stub_remote_silent_def stub_io_def js_or_def)
  have b: "fst (translateText stub_remote_silent ''hello'' stub_config stub_io) = Inr []"
    by (rule inst [THEN conjunct2, THEN conjunct2, THEN conjunct2, THEN conjunct1, THEN mp, OF pre])
  have ld: "text_leaves sample_docx_xml \<and> distinct (marked_visits sample_docx_xml)"
    by (simp add: sample_docx_leaves sample_docx_visits)
  note pos = writeBack_skips_empty_translation
    [where t = sample_docx_xml and translatedTexts = "[[], ''WORLD'']",
      THEN conjunct2, THEN conjunct2, THEN conjunct2, THEN conjunct2, THEN mp, OF ld]
  have wb: "sample_written_back sample_docx_xml [[], ''WORLD''] =
        writeParagraphs (new_document sample_docx_xml\<lparr>pending := set (marked_visits sample_docx_xml)\<rparr>)
          (document_getElementsByTagName (new_document sample_docx_xml) ''w:p'') [[], ''WORLD''] 0"
    by (simp add: sample_written_back_def sample_paragraphs_def first_pass)
  have orig: "textContent (new_document sample_docx_xml) [0, 0, 0, 0] = ''hello''"
    by code_simp
  have n: "snd (sample_written_back sample_docx_xml [[], ''WORLD'']) = 2"
    using pos [THEN conjunct1] by (simp add: wb sample_docx_visits)
  have c: "textContent (fst (sample_written_back sample_docx_xml [[], ''WORLD''])) [0, 0, 0, 0] = ''hello''"
    using pos [THEN conjunct2, THEN spec, of 0] orig
    by (simp add: wb sample_docx_visits truthy_at_def)
  have d: "textContent (fst (sample_written_back sample_docx_xml [[], ''WORLD''])) [0, 1, 0, 0] = ''WORLD''"
    using pos [THEN conjunct2, THEN spec, of 1]
    by (simp add: wb sample_docx_visits truthy_at_def)
  from a b n c d show ?thesis by simp
qed

text \<open>
  Without the two conditions C10 fails. In the first sample a \<open>w:t\<close> element contains
  another: the second translated string is empty, the assignment of the first string
  removes the inner element from the live collection, the third marked node is visited
  second and meets the empty string, so it keeps its text, its own string is never
  written and \<open>tIndex\<close> ends at 2 with three marked nodes. In the second sample, where no
  \<open>w:t\<close> element contains another, the text node inside the text box is visited from
  both paragraphs: its string at the first visit is empty, and it ends with the string of
  its second visit, not with the text it had before.
\<close>

theorem empty_translation_misaligned:
  "marked_visits sample_nested_xml = [[0, 0, 0], [0, 0, 0, 1], [0, 0, 1]] \<and>
   textContent (new_document sample_nested_xml) [0, 0, 1] = ''three'' \<and>
   textContent (fst (sample_written_back sample_nested_xml [''ONE TWO'', [], ''THREE'']))
     [0, 0, 1] = ''three'' \<and>
   snd (sample_written_back sample_nested_xml [''ONE TWO'', [], ''THREE'']) = 2 \<and>
   text_leaves sample_textbox_xml \<and>
   marked_visits sample_textbox_xml =
     [[0, 0, 0, 0], [0, 0, 1, 0, 0, 0, 0, 0], [0, 0, 2, 0], [0, 0, 1, 0, 0, 0, 0, 0]] \<and>
   textContent (new_document sample_textbox_xml) [0, 0, 1, 0, 0, 0, 0, 0] = ''inside'' \<and>
   textContent (fst (sample_written_back sample_textbox_xml [''A'', [], ''C'', ''D'']))
     [0, 0, 1, 0, 0, 0, 0, 0] = ''D''"
  by code_simp

end
